theory Spec2Isabelle
  imports Main
begin

section \<open>Skiplist data model\<close>

text \<open>
  Modelled from the spec: the skiplist node and the skiplist header (their declarations are
  not part of the sources at hand). A node holds an item pointer and an array of tagged
  next-pointers, one per level of its tower; every next-pointer carries a deletion mark.
  Node pointers are addresses (\<open>nat\<close>), \<open>None\<close> is the nil pointer, and the heap is a
  total map from addresses to nodes.
\<close>

record 'a node =
  item :: 'a
  nexts :: "(nat option \<times> bool) list"

record 'a skiplist =
  store :: "nat \<Rightarrow> 'a node"
  head :: nat
  tail :: nat
  level :: nat

datatype panic = NilDeref | OutOfRange | NonZeroRemaining nat

text \<open>
  Modelled from the spec: \<open>Node.getNext(level)\<close> reads the tagged next-pointer of a
  level and returns the successor together with the deletion mark. A level outside the
  node's tower is an index out of range.
\<close>

definition getNext :: "'a skiplist \<Rightarrow> nat \<Rightarrow> nat \<Rightarrow> panic + (nat option \<times> bool)" where
  "getNext s n l =
     (if l < length (nexts (store s n)) then Inr (nexts (store s n) ! l) else Inl OutOfRange)"

definition Item :: "'a skiplist \<Rightarrow> nat \<Rightarrow> 'a" where
  "Item s n = item (store s n)"

section \<open>Batch descent (skiplist/batch\_ops.go)\<close>

record 'a BatchOp =
  flag :: int
  itm :: 'a

text \<open>
  One entry of the callback trace: the node and the right neighbour of the level-0 span,
  the operations still pending when the callback was invoked, and the slice handed over.
\<close>

record 'a call =
  c_node :: nat
  c_right :: nat
  c_pending :: "'a BatchOp list"
  c_ops :: "'a BatchOp list"

text \<open>
  A \<open>BatchOpCallback\<close> receives the current node and a slice of operations and returns an
  error or nil. Its own effects are a state \<open>'st\<close> threaded through the invocations; it
  does not relink the nodes the descent walks over.
\<close>

type_synonym ('a, 'e, 'st) BatchOpCallback =
  "'st \<Rightarrow> nat \<Rightarrow> 'a BatchOp list \<Rightarrow> 'e option \<times> 'st"

type_synonym ('a, 'e, 'st) batch_result =
  "'a BatchOp list \<times> 'e option \<times> 'st \<times> 'a call list"

text \<open>
  \<open>execBatchOpsInner\<close>: the arguments \<open>currNode\<close> and \<open>currOps\<close> are the loop variables
  at the head of the \<open>for\<close> loop (initially \<open>startNode\<close> and \<open>ops\<close>); every loop
  iteration and every descent spends one unit of fuel, \<open>None\<close> is running out of it.
  The parameter \<open>compare\<close> is the package's \<open>compare(cmp, _, _)\<close> on item pointers,
  sentinels included. Dereferencing a nil \<open>rightNode\<close> panics before the
  \<open>currNode == nil\<close> test is reached. \<open>batchOffset\<close> is the inner loop that
  starts with \<open>offset := 1\<close> and advances while the operation at \<open>offset\<close> compares
  below the right neighbour's item.
\<close>

definition batchOffset :: "('a \<Rightarrow> 'a \<Rightarrow> int) \<Rightarrow> 'a \<Rightarrow> 'a BatchOp list \<Rightarrow> nat" where
  "batchOffset compare rightItem currOps =
     Suc (length (takeWhile (\<lambda>op. compare (itm op) rightItem < 0) (tl currOps)))"

fun execBatchOpsInner ::
  "nat \<Rightarrow> 'a skiplist \<Rightarrow> ('a \<Rightarrow> 'a \<Rightarrow> int) \<Rightarrow> ('a, 'e, 'st) BatchOpCallback \<Rightarrow>
   nat \<Rightarrow> nat \<Rightarrow> nat \<Rightarrow> 'a BatchOp list \<Rightarrow> 'st \<Rightarrow> 'a call list \<Rightarrow>
   (panic + ('a, 'e, 'st) batch_result) option" where
  "execBatchOpsInner 0 s compare callb currNode endNode lvl currOps st tr = None"
| "execBatchOpsInner (Suc fuel) s compare callb currNode endNode lvl currOps st tr =
     (if compare (Item s currNode) (Item s endNode) < 0 \<and> 0 < length currOps then
        (case getNext s currNode lvl of
           Inl p \<Rightarrow> Some (Inl p)
         | Inr (None, _) \<Rightarrow> Some (Inl NilDeref)
         | Inr (Some rightNode, _) \<Rightarrow>
             if compare (itm (hd currOps)) (Item s rightNode) < 0 then
               (if lvl = 0 then
                  (let offset = batchOffset compare (Item s rightNode) currOps;
                       tr' = tr @ [\<lparr>c_node = currNode, c_right = rightNode,
                                    c_pending = currOps, c_ops = take offset currOps\<rparr>]
                   in case callb st currNode (take offset currOps) of
                        (Some err, st') \<Rightarrow> Some (Inr (currOps, Some err, st', tr'))
                      | (None, st') \<Rightarrow>
                          execBatchOpsInner fuel s compare callb rightNode endNode lvl
                            (drop offset currOps) st' tr')
                else
                  (case execBatchOpsInner fuel s compare callb currNode rightNode (lvl - 1)
                          currOps st tr of
                     None \<Rightarrow> None
                   | Some (Inl p) \<Rightarrow> Some (Inl p)
                   | Some (Inr (ops', Some err, st', tr')) \<Rightarrow> Some (Inr (ops', Some err, st', tr'))
                   | Some (Inr (ops', None, st', tr')) \<Rightarrow>
                       execBatchOpsInner fuel s compare callb rightNode endNode lvl ops' st' tr'))
             else execBatchOpsInner fuel s compare callb rightNode endNode lvl currOps st tr)
      else Some (Inr (currOps, None, st, tr)))"

text \<open>
  \<open>ExecBatchOps\<close> returns the callback error, after the check that panics when operations
  remain.
\<close>

definition ExecBatchOps ::
  "nat \<Rightarrow> 'a skiplist \<Rightarrow> 'a BatchOp list \<Rightarrow> ('a, 'e, 'st) BatchOpCallback \<Rightarrow>
   ('a \<Rightarrow> 'a \<Rightarrow> int) \<Rightarrow> 'st \<Rightarrow> (panic + ('e option \<times> 'st \<times> 'a call list)) option" where
  "ExecBatchOps fuel s ops callb compare st =
     (case execBatchOpsInner fuel s compare callb (head s) (tail s) (level s) ops st [] of
        None \<Rightarrow> None
      | Some (Inl p) \<Rightarrow> Some (Inl p)
      | Some (Inr (remaining, err, st', tr)) \<Rightarrow>
          if 0 < length remaining then Some (Inl (NonZeroRemaining (length remaining)))
          else Some (Inr (err, st', tr)))"

text \<open>
  What the level-0 delivery of one callback invocation looks like: the recorded right
  neighbour is the level-0 successor of the node, the slice is the non-empty longest prefix
  of the pending operations that compare below the right neighbour's item, and every
  delivered operation lies between the node's item and the right neighbour's item.
\<close>

definition call_ok :: "'a skiplist \<Rightarrow> ('a \<Rightarrow> 'a \<Rightarrow> int) \<Rightarrow> 'a call \<Rightarrow> bool" where
  "call_ok s compare k =
     ((case getNext s (c_node k) 0 of Inr (Some r, _) \<Rightarrow> r = c_right k | _ \<Rightarrow> False) \<and>
      c_ops k \<noteq> [] \<and>
      c_ops k = takeWhile (\<lambda>op. compare (itm op) (Item s (c_right k)) < 0) (c_pending k) \<and>
      (\<forall>op \<in> set (c_ops k). 0 \<le> compare (itm op) (Item s (c_node k)) \<and>
                               compare (itm op) (Item s (c_right k)) < 0))"

text \<open>
  The pending operations of successive invocations: each invocation sees what the previous
  ones left over.
\<close>

fun trace_from :: "'a BatchOp list \<Rightarrow> 'a call list \<Rightarrow> bool" where
  "trace_from ops [] = True"
| "trace_from ops (k # ks) = (c_pending k = ops \<and> trace_from (drop (length (c_ops k)) ops) ks)"

text \<open>
  The operations are sorted by the comparator: a later operation never compares below an
  earlier one.
\<close>

definition ops_sorted :: "('a \<Rightarrow> 'a \<Rightarrow> int) \<Rightarrow> 'a BatchOp list \<Rightarrow> bool" where
  "ops_sorted compare ops = sorted_wrt (\<lambda>a b. 0 \<le> compare (itm b) (itm a)) ops"

text \<open>
  Well-formed towers, as far as the batch descent reads them. \<open>rank\<close> orders the nodes
  from head to tail: every next-pointer of a node in front of the tail leads to a node of
  higher rank that has the same level, and the tail is the only node of its rank that is
  reached. The head has the skiplist's top level. The tail's item is the upper sentinel:
  every node in front of the tail compares below it, and it compares below none of them.
\<close>

definition batch_wf :: "'a skiplist \<Rightarrow> ('a \<Rightarrow> 'a \<Rightarrow> int) \<Rightarrow> (nat \<Rightarrow> nat) \<Rightarrow> bool" where
  "batch_wf s compare rank =
     (level s < length (nexts (store s (head s))) \<and> rank (head s) < rank (tail s) \<and>
      (\<forall>n l. rank n < rank (tail s) \<longrightarrow> l < length (nexts (store s n)) \<longrightarrow>
         (\<exists>r b. nexts (store s n) ! l = (Some r, b) \<and> rank n < rank r \<and>
                (rank r < rank (tail s) \<or> r = tail s) \<and> l < length (nexts (store s r)))) \<and>
      (\<forall>n. rank n < rank (tail s) \<longrightarrow>
         compare (Item s n) (Item s (tail s)) < 0 \<and> 0 \<le> compare (Item s (tail s)) (Item s n)))"

section \<open>Skiplist primitives the iterator calls\<close>

text \<open>
  Modelled from the spec: \<open>helpDelete(level, prev, curr, next)\<close> is a compare-and-swap on
  \<open>prev.next[level]\<close>: it succeeds when that pointer still leads, unmarked, to \<open>curr\<close>,
  and then makes it lead to \<open>next\<close>, which unlinks \<open>curr\<close>; a failed swap changes
  nothing.
\<close>

definition setNext :: "'a skiplist \<Rightarrow> nat \<Rightarrow> nat \<Rightarrow> nat option \<times> bool \<Rightarrow> 'a skiplist" where
  "setNext s n l v = s\<lparr>store := (store s)(n := (store s n)\<lparr>nexts := (nexts (store s n))[l := v]\<rparr>)\<rparr>"

definition helpDelete ::
  "'a skiplist \<Rightarrow> nat \<Rightarrow> nat \<Rightarrow> nat \<Rightarrow> nat option \<Rightarrow> bool \<times> 'a skiplist" where
  "helpDelete s l prv cur nxt =
     (case getNext s prv l of
        Inr (Some c, False) \<Rightarrow> if c = cur then (True, setNext s prv l (nxt, False)) else (False, s)
      | _ \<Rightarrow> (False, s))"

text \<open>
  Modelled from the spec: \<open>softDelete(node)\<close> sets the deletion mark on the node's
  next-pointer of every level.
\<close>

definition softDelete :: "'a skiplist \<Rightarrow> nat \<Rightarrow> 'a skiplist" where
  "softDelete s n =
     s\<lparr>store := (store s)(n := (store s n)\<lparr>nexts := map (\<lambda>(p, _). (p, True)) (nexts (store s n))\<rparr>)\<rparr>"

text \<open>
  Modelled from the spec: \<open>findPath2(itm, cmp, skipItm)\<close>, as far as the iterator reads its
  result, which is \<open>preds[0]\<close>, \<open>succs[0]\<close> and the found node. The search walks right on
  level 0 from the head: a node whose next-pointer is marked is unlinked by \<open>helpDelete\<close>
  (or passed when the swap fails); a node the skip function rejects is treated as absent; a
  node that compares below the item becomes the predecessor; the first other node is the
  successor, and it is the found node when it compares equal. \<open>link\<close> is the node whose
  next-pointer is read, \<open>pred\<close> the predecessor so far. The towers above level 0 are
  shortcuts of this walk and are not read here.
\<close>

fun findPath2_walk ::
  "nat \<Rightarrow> 'a skiplist \<Rightarrow> 'a \<Rightarrow> ('a \<Rightarrow> 'a \<Rightarrow> int) \<Rightarrow> ('a \<Rightarrow> bool) option \<Rightarrow> nat \<Rightarrow> nat \<Rightarrow>
   (panic + (nat option \<times> nat \<times> nat \<times> 'a skiplist)) option" where
  "findPath2_walk 0 s itm' compare skipItm link pred = None"
| "findPath2_walk (Suc fuel) s itm' compare skipItm link pred =
     (case getNext s link 0 of
        Inl p \<Rightarrow> Some (Inl p)
      | Inr (None, _) \<Rightarrow> Some (Inl NilDeref)
      | Inr (Some c, _) \<Rightarrow>
          (case getNext s c 0 of
             Inl p \<Rightarrow> Some (Inl p)
           | Inr (nx, True) \<Rightarrow>
               (case helpDelete s 0 link c nx of
                  (True, s') \<Rightarrow> findPath2_walk fuel s' itm' compare skipItm link pred
                | (False, s') \<Rightarrow> findPath2_walk fuel s' itm' compare skipItm c pred)
           | Inr (nx, False) \<Rightarrow>
               if (case skipItm of None \<Rightarrow> False | Some skip \<Rightarrow> skip (Item s c)) then
                 findPath2_walk fuel s itm' compare skipItm c pred
               else if compare (Item s c) itm' < 0 then
                 findPath2_walk fuel s itm' compare skipItm c c
               else
                 Some (Inr (if compare (Item s c) itm' = 0 then Some c else None, pred, c, s))))"

definition findPath2 ::
  "nat \<Rightarrow> 'a skiplist \<Rightarrow> 'a \<Rightarrow> ('a \<Rightarrow> 'a \<Rightarrow> int) \<Rightarrow> ('a \<Rightarrow> bool) option \<Rightarrow>
   (panic + (nat option \<times> nat \<times> nat \<times> 'a skiplist)) option" where
  "findPath2 fuel s itm' compare skipItm = findPath2_walk fuel s itm' compare skipItm (head s) (head s)"

definition findPath ::
  "nat \<Rightarrow> 'a skiplist \<Rightarrow> 'a \<Rightarrow> ('a \<Rightarrow> 'a \<Rightarrow> int) \<Rightarrow>
   (panic + (nat option \<times> nat \<times> nat \<times> 'a skiplist)) option" where
  "findPath fuel s itm' compare = findPath2 fuel s itm' compare None"

section \<open>Skiplist iterator (skiplist/iterator.go, second file of batch\_ops.go)\<close>

text \<open>
  The iterator's fields \<open>cmp\<close> and \<open>s\<close> are arguments of the operations (the skiplist is
  returned when an operation relinks it); the path buffer is the result of \<open>findPath\<close>;
  the barrier session and the statistics counters are not modelled.
\<close>

record sl_iterator =
  prev :: "nat option"
  curr :: "nat option"
  valid :: bool
  deleted :: bool

definition NewIterator :: sl_iterator where
  "NewIterator = \<lparr>prev = None, curr = None, valid = False, deleted = False\<rparr>"

definition sl_SeekFirst :: "sl_iterator \<Rightarrow> 'a skiplist \<Rightarrow> panic + sl_iterator" where
  "sl_SeekFirst it s =
     (case getNext s (head s) 0 of
        Inl p \<Rightarrow> Inl p
      | Inr (c, _) \<Rightarrow> Inr (it\<lparr>prev := Some (head s), curr := c, valid := True\<rparr>))"

definition sl_SeekWithSkip ::
  "nat \<Rightarrow> sl_iterator \<Rightarrow> 'a skiplist \<Rightarrow> ('a \<Rightarrow> 'a \<Rightarrow> int) \<Rightarrow> 'a \<Rightarrow> ('a \<Rightarrow> bool) option \<Rightarrow>
   (panic + (bool \<times> sl_iterator \<times> 'a skiplist)) option" where
  "sl_SeekWithSkip fuel it s compare itm' skipItm =
     (case findPath2 fuel s itm' compare skipItm of
        None \<Rightarrow> None
      | Some (Inl p) \<Rightarrow> Some (Inl p)
      | Some (Inr (foundNode, preds0, succs0, s')) \<Rightarrow>
          Some (Inr (foundNode \<noteq> None,
                     it\<lparr>valid := True, prev := Some preds0, curr := Some succs0\<rparr>, s')))"

definition sl_Seek ::
  "nat \<Rightarrow> sl_iterator \<Rightarrow> 'a skiplist \<Rightarrow> ('a \<Rightarrow> 'a \<Rightarrow> int) \<Rightarrow> 'a \<Rightarrow>
   (panic + (bool \<times> sl_iterator \<times> 'a skiplist)) option" where
  "sl_Seek fuel it s compare itm' = sl_SeekWithSkip fuel it s compare itm' None"

definition sl_SeekPrev ::
  "nat \<Rightarrow> sl_iterator \<Rightarrow> 'a skiplist \<Rightarrow> ('a \<Rightarrow> 'a \<Rightarrow> int) \<Rightarrow> 'a \<Rightarrow> ('a \<Rightarrow> bool) option \<Rightarrow>
   (panic + (sl_iterator \<times> 'a skiplist)) option" where
  "sl_SeekPrev fuel it s compare itm' skip =
     (case sl_SeekWithSkip fuel it s compare itm' skip of
        None \<Rightarrow> None
      | Some (Inl p) \<Rightarrow> Some (Inl p)
      | Some (Inr (found, it', s')) \<Rightarrow>
          if \<not> found \<and> prev it' \<noteq> Some (head s') then
            Some (Inr (it'\<lparr>curr := prev it', prev := None\<rparr>, s'))
          else Some (Inr (it', s')))"

definition sl_Valid :: "sl_iterator \<Rightarrow> 'a skiplist \<Rightarrow> bool \<times> sl_iterator" where
  "sl_Valid it s =
     (if valid it \<and> curr it = Some (tail s) then (False, it\<lparr>valid := False\<rparr>)
      else (valid it, it))"

definition sl_Get :: "sl_iterator \<Rightarrow> 'a skiplist \<Rightarrow> panic + 'a" where
  "sl_Get it s = (case curr it of None \<Rightarrow> Inl NilDeref | Some c \<Rightarrow> Inr (Item s c))"

definition sl_GetNode :: "sl_iterator \<Rightarrow> nat option" where
  "sl_GetNode it = curr it"

text \<open>
  The part of \<open>Next\<close> from the label \<open>retry\<close> on; a jump back to the label spends one
  unit of fuel.
\<close>

fun sl_Next_retry ::
  "nat \<Rightarrow> sl_iterator \<Rightarrow> 'a skiplist \<Rightarrow> ('a \<Rightarrow> 'a \<Rightarrow> int) \<Rightarrow>
   (panic + (sl_iterator \<times> 'a skiplist)) option" where
  "sl_Next_retry 0 it s compare = None"
| "sl_Next_retry (Suc fuel) it s compare =
     (case curr it of
        None \<Rightarrow> Some (Inl NilDeref)
      | Some c \<Rightarrow>
          (case getNext s c 0 of
             Inl p \<Rightarrow> Some (Inl p)
           | Inr (next, True) \<Rightarrow>
               (case (case prev it of None \<Rightarrow> (False, s)
                                     | Some p \<Rightarrow> helpDelete s 0 p c next) of
                  (True, s') \<Rightarrow> Some (Inr (it\<lparr>valid := True, curr := next\<rparr>, s'))
                | (False, s') \<Rightarrow>
                    (case findPath (Suc fuel) s' (Item s' c) compare of
                       None \<Rightarrow> None
                     | Some (Inl p) \<Rightarrow> Some (Inl p)
                     | Some (Inr (foundNode, preds0, succs0, s'')) \<Rightarrow>
                         if foundNode \<noteq> None \<and> c = succs0 then
                           sl_Next_retry fuel
                             (it\<lparr>valid := True, prev := Some preds0, curr := Some succs0\<rparr>)
                             s'' compare
                         else
                           Some (Inr (it\<lparr>valid := True, prev := Some preds0,
                                         curr := Some succs0\<rparr>, s''))))
           | Inr (next, False) \<Rightarrow>
               Some (Inr (it\<lparr>valid := True, prev := Some c, curr := next\<rparr>, s))))"

definition sl_Next ::
  "nat \<Rightarrow> sl_iterator \<Rightarrow> 'a skiplist \<Rightarrow> ('a \<Rightarrow> 'a \<Rightarrow> int) \<Rightarrow>
   (panic + (sl_iterator \<times> 'a skiplist)) option" where
  "sl_Next fuel it s compare =
     (if deleted it then Some (Inr (it\<lparr>deleted := False\<rparr>, s))
      else (case sl_Valid it s of
              (False, it') \<Rightarrow> Some (Inr (it', s))
            | (True, it') \<Rightarrow> sl_Next_retry fuel it' s compare))"

definition sl_Delete ::
  "nat \<Rightarrow> sl_iterator \<Rightarrow> 'a skiplist \<Rightarrow> ('a \<Rightarrow> 'a \<Rightarrow> int) \<Rightarrow>
   (panic + (sl_iterator \<times> 'a skiplist)) option" where
  "sl_Delete fuel it s compare =
     (case curr it of
        None \<Rightarrow> Some (Inl NilDeref)
      | Some c \<Rightarrow>
          (case sl_Next fuel it (softDelete s c) compare of
             None \<Rightarrow> None
           | Some (Inl p) \<Rightarrow> Some (Inl p)
           | Some (Inr (it', s')) \<Rightarrow> Some (Inr (it'\<lparr>deleted := True\<rparr>, s'))))"

section \<open>Snapshot iterator (iterator.go and its variant with an end item)\<close>

text \<open>
  Modelled from the spec: an item is a byte string with the stamps \<open>bornSn\<close> and
  \<open>deadSn\<close>. A node holds an item pointer: the lower sentinel of the head, the upper
  sentinel of the tail (\<open>skiplist.MaxItem\<close>), or a pointer to an item.
\<close>

record Item =
  bornSn :: nat
  deadSn :: nat
  bytes :: string

datatype itemptr = MinItem | MaxItem | ItemPtr Item

text \<open>
  Modelled from the spec: the skiplist compares item pointers with the caller's comparator,
  except that the head's item is below and the tail's item above everything.
\<close>

definition sentinelCompare :: "(itemptr \<Rightarrow> itemptr \<Rightarrow> int) \<Rightarrow> itemptr \<Rightarrow> itemptr \<Rightarrow> int" where
  "sentinelCompare cmp this that =
     (if this = MinItem \<or> that = MaxItem then -1
      else if this = MaxItem \<or> that = MinItem then 1
      else cmp this that)"

text \<open>Modelled from the spec: \<open>newItem(bs, false)\<close> wraps a key for a lookup.\<close>

definition newItem :: "string \<Rightarrow> itemptr" where
  "newItem bs = ItemPtr \<lparr>bornSn = 0, deadSn = 0, bytes = bs\<rparr>"

text \<open>The visibility predicate of the spec.\<close>

definition visible :: "nat \<Rightarrow> Item \<Rightarrow> bool" where
  "visible S n = (bornSn n \<le> S \<and> (deadSn n = 0 \<or> deadSn n > S))"

text \<open>
  The snapshot iterator without a block store (\<open>HasBlockStore()\<close> is false, so
  \<open>loadItems\<close> and the block scans do nothing and \<open>Get\<close> returns the bytes of the
  current node's item). \<open>snap_sn\<close> is \<open>it.snap.sn\<close>. The variant of iterator.go has no
  \<open>endItm\<close> field and no \<open>SetEnd\<close>; its operations carry the suffix \<open>_go\<close> where
  they differ.
\<close>

record Iterator =
  count :: int
  refreshRate :: int
  snap_sn :: nat
  iter :: sl_iterator
  endItm :: "itemptr option"

fun skipUnwanted ::
  "nat \<Rightarrow> Iterator \<Rightarrow> itemptr skiplist \<Rightarrow> (itemptr \<Rightarrow> itemptr \<Rightarrow> int) \<Rightarrow>
   (panic + (Iterator \<times> itemptr skiplist)) option" where
  "skipUnwanted 0 it s iterCmp = None"
| "skipUnwanted (Suc fuel) it s iterCmp =
     (case sl_Valid (iter it) s of
        (False, i') \<Rightarrow> Some (Inr (it\<lparr>iter := i'\<rparr>, s))
      | (True, i') \<Rightarrow>
          (case sl_Get i' s of
             Inl p \<Rightarrow> Some (Inl p)
           | Inr MinItem \<Rightarrow> Some (Inl NilDeref)
           | Inr MaxItem \<Rightarrow> Some (Inl NilDeref)
           | Inr (ItemPtr itm') \<Rightarrow>
               if bornSn itm' > snap_sn it \<or> (deadSn itm' > 0 \<and> deadSn itm' \<le> snap_sn it) then
                 (case sl_Next (Suc fuel) i' s (sentinelCompare iterCmp) of
                    None \<Rightarrow> None
                  | Some (Inl p) \<Rightarrow> Some (Inl p)
                  | Some (Inr (i'', s')) \<Rightarrow>
                      skipUnwanted fuel (it\<lparr>iter := i'', count := count it + 1\<rparr>) s' iterCmp)
               else Some (Inr (it\<lparr>iter := i'\<rparr>, s))))"

definition SeekFirst ::
  "nat \<Rightarrow> Iterator \<Rightarrow> itemptr skiplist \<Rightarrow> (itemptr \<Rightarrow> itemptr \<Rightarrow> int) \<Rightarrow>
   (panic + (Iterator \<times> itemptr skiplist)) option" where
  "SeekFirst fuel it s iterCmp =
     (case sl_SeekFirst (iter it) s of
        Inl p \<Rightarrow> Some (Inl p)
      | Inr i' \<Rightarrow> skipUnwanted fuel (it\<lparr>iter := i'\<rparr>) s iterCmp)"

text \<open>
  \<open>Seek\<close> of the variant with an end item: a nil key is \<open>SeekFirst\<close>, any other key is
  the skiplist iterator's \<open>Seek\<close> followed by \<open>skipUnwanted\<close>. A byte slice is
  \<open>None\<close> when it is nil.
\<close>

definition Seek ::
  "nat \<Rightarrow> Iterator \<Rightarrow> itemptr skiplist \<Rightarrow> (itemptr \<Rightarrow> itemptr \<Rightarrow> int) \<Rightarrow> string option \<Rightarrow>
   (panic + (Iterator \<times> itemptr skiplist)) option" where
  "Seek fuel it s iterCmp bs =
     (case bs of
        None \<Rightarrow> SeekFirst fuel it s iterCmp
      | Some b \<Rightarrow>
          (case sl_Seek fuel (iter it) s (sentinelCompare iterCmp) (newItem b) of
             None \<Rightarrow> None
           | Some (Inl p) \<Rightarrow> Some (Inl p)
           | Some (Inr (found, i', s')) \<Rightarrow> skipUnwanted fuel (it\<lparr>iter := i'\<rparr>) s' iterCmp))"

text \<open>
  \<open>Seek\<close> of iterator.go: the skiplist iterator's \<open>SeekPrev\<close> (called there without a
  skip function) followed by \<open>skipUnwanted\<close>; \<open>newItem\<close> of a nil slice is the item of
  the empty key.
\<close>

definition Seek_go ::
  "nat \<Rightarrow> Iterator \<Rightarrow> itemptr skiplist \<Rightarrow> (itemptr \<Rightarrow> itemptr \<Rightarrow> int) \<Rightarrow> string option \<Rightarrow>
   (panic + (Iterator \<times> itemptr skiplist)) option" where
  "Seek_go fuel it s iterCmp bs =
     (case sl_SeekPrev fuel (iter it) s (sentinelCompare iterCmp)
             (newItem (case bs of None \<Rightarrow> [] | Some b \<Rightarrow> b)) None of
        None \<Rightarrow> None
      | Some (Inl p) \<Rightarrow> Some (Inl p)
      | Some (Inr (i', s')) \<Rightarrow> skipUnwanted fuel (it\<lparr>iter := i'\<rparr>) s' iterCmp)"

definition SetEnd :: "Iterator \<Rightarrow> string option \<Rightarrow> Iterator" where
  "SetEnd it bs =
     (case bs of
        None \<Rightarrow> it
      | Some b \<Rightarrow> if length b > 0 then it\<lparr>endItm := Some (newItem b)\<rparr> else it)"

definition Valid ::
  "Iterator \<Rightarrow> itemptr skiplist \<Rightarrow> (itemptr \<Rightarrow> itemptr \<Rightarrow> int) \<Rightarrow> panic + (bool \<times> Iterator)" where
  "Valid it s iterCmp =
     (case sl_Valid (iter it) s of
        (True, i') \<Rightarrow>
          (case endItm it of
             None \<Rightarrow> Inr (True, it\<lparr>iter := i'\<rparr>)
           | Some e \<Rightarrow>
               (case sl_Get i' s of
                  Inl p \<Rightarrow> Inl p
                | Inr x \<Rightarrow> if iterCmp x e \<ge> 0 then Inr (False, it\<lparr>iter := i'\<rparr>)
                           else Inr (True, it\<lparr>iter := i'\<rparr>)))
      | (False, i') \<Rightarrow> Inr (False, it\<lparr>iter := i'\<rparr>))"

definition Valid_go :: "Iterator \<Rightarrow> itemptr skiplist \<Rightarrow> bool \<times> Iterator" where
  "Valid_go it s = (case sl_Valid (iter it) s of (v, i') \<Rightarrow> (v, it\<lparr>iter := i'\<rparr>))"

definition Get :: "Iterator \<Rightarrow> itemptr skiplist \<Rightarrow> panic + string" where
  "Get it s =
     (case sl_Get (iter it) s of
        Inl p \<Rightarrow> Inl p
      | Inr (ItemPtr itm') \<Rightarrow> Inr (bytes itm')
      | Inr _ \<Rightarrow> Inl NilDeref)"

definition GetNode :: "Iterator \<Rightarrow> nat option" where
  "GetNode it = sl_GetNode (iter it)"

text \<open>
  \<open>Refresh\<close>: when the iterator is valid, the skiplist iterator is replaced by a new one
  that seeks the current node's item. The two variants differ in their \<open>Valid\<close>.
\<close>

definition Refresh_seek ::
  "nat \<Rightarrow> Iterator \<Rightarrow> itemptr skiplist \<Rightarrow> (itemptr \<Rightarrow> itemptr \<Rightarrow> int) \<Rightarrow>
   (panic + (Iterator \<times> itemptr skiplist)) option" where
  "Refresh_seek fuel it s iterCmp =
     (case GetNode it of
        None \<Rightarrow> Some (Inl NilDeref)
      | Some n \<Rightarrow>
          (case sl_Seek fuel NewIterator s (sentinelCompare iterCmp) (Item s n) of
             None \<Rightarrow> None
           | Some (Inl p) \<Rightarrow> Some (Inl p)
           | Some (Inr (found, i', s')) \<Rightarrow> Some (Inr (it\<lparr>iter := i'\<rparr>, s'))))"

definition Refresh ::
  "nat \<Rightarrow> Iterator \<Rightarrow> itemptr skiplist \<Rightarrow> (itemptr \<Rightarrow> itemptr \<Rightarrow> int) \<Rightarrow>
   (panic + (Iterator \<times> itemptr skiplist)) option" where
  "Refresh fuel it s iterCmp =
     (case Valid it s iterCmp of
        Inl p \<Rightarrow> Some (Inl p)
      | Inr (True, it') \<Rightarrow> Refresh_seek fuel it' s iterCmp
      | Inr (False, it') \<Rightarrow> Some (Inr (it', s)))"

definition Refresh_go ::
  "nat \<Rightarrow> Iterator \<Rightarrow> itemptr skiplist \<Rightarrow> (itemptr \<Rightarrow> itemptr \<Rightarrow> int) \<Rightarrow>
   (panic + (Iterator \<times> itemptr skiplist)) option" where
  "Refresh_go fuel it s iterCmp =
     (case Valid_go it s of
        (True, it') \<Rightarrow> Refresh_seek fuel it' s iterCmp
      | (False, it') \<Rightarrow> Some (Inr (it', s)))"

text \<open>
  \<open>Next\<close>: the skiplist iterator's \<open>Next\<close>, the counter, \<open>skipUnwanted\<close>, and the
  automatic refresh when the refresh rate is positive and the counter has passed it.
\<close>

definition Next_skip ::
  "nat \<Rightarrow> Iterator \<Rightarrow> itemptr skiplist \<Rightarrow> (itemptr \<Rightarrow> itemptr \<Rightarrow> int) \<Rightarrow>
   (panic + (Iterator \<times> itemptr skiplist)) option" where
  "Next_skip fuel it s iterCmp =
     (case sl_Next fuel (iter it) s (sentinelCompare iterCmp) of
        None \<Rightarrow> None
      | Some (Inl p) \<Rightarrow> Some (Inl p)
      | Some (Inr (i', s')) \<Rightarrow>
          skipUnwanted fuel (it\<lparr>iter := i', count := count it + 1\<rparr>) s' iterCmp)"

definition Next ::
  "nat \<Rightarrow> Iterator \<Rightarrow> itemptr skiplist \<Rightarrow> (itemptr \<Rightarrow> itemptr \<Rightarrow> int) \<Rightarrow>
   (panic + (Iterator \<times> itemptr skiplist)) option" where
  "Next fuel it s iterCmp =
     (case Next_skip fuel it s iterCmp of
        None \<Rightarrow> None
      | Some (Inl p) \<Rightarrow> Some (Inl p)
      | Some (Inr (it', s')) \<Rightarrow>
          if refreshRate it' > 0 \<and> count it' > refreshRate it' then
            (case Refresh fuel it' s' iterCmp of
               None \<Rightarrow> None
             | Some (Inl p) \<Rightarrow> Some (Inl p)
             | Some (Inr (it'', s'')) \<Rightarrow> Some (Inr (it''\<lparr>count := 0\<rparr>, s'')))
          else Some (Inr (it', s')))"

definition Next_go ::
  "nat \<Rightarrow> Iterator \<Rightarrow> itemptr skiplist \<Rightarrow> (itemptr \<Rightarrow> itemptr \<Rightarrow> int) \<Rightarrow>
   (panic + (Iterator \<times> itemptr skiplist)) option" where
  "Next_go fuel it s iterCmp =
     (case Next_skip fuel it s iterCmp of
        None \<Rightarrow> None
      | Some (Inl p) \<Rightarrow> Some (Inl p)
      | Some (Inr (it', s')) \<Rightarrow>
          if refreshRate it' > 0 \<and> count it' > refreshRate it' then
            (case Refresh_go fuel it' s' iterCmp of
               None \<Rightarrow> None
             | Some (Inl p) \<Rightarrow> Some (Inl p)
             | Some (Inr (it'', s'')) \<Rightarrow> Some (Inr (it''\<lparr>count := 0\<rparr>, s'')))
          else Some (Inr (it', s')))"

text \<open>
  The iteration loop of the callers (\<open>for itr.SeekFirst(); itr.Valid(); itr.Next()\<close>, or
  after a \<open>Seek\<close>): while the iterator is valid, the loop body reads \<open>GetNode\<close> and
  \<open>Get\<close>, then \<open>Next\<close> is called. The result is the list of what the body has read,
  with the final iterator and skiplist.
\<close>

fun iterate ::
  "nat \<Rightarrow> Iterator \<Rightarrow> itemptr skiplist \<Rightarrow> (itemptr \<Rightarrow> itemptr \<Rightarrow> int) \<Rightarrow>
   (panic + ((nat option \<times> string) list \<times> Iterator \<times> itemptr skiplist)) option" where
  "iterate 0 it s iterCmp = None"
| "iterate (Suc fuel) it s iterCmp =
     (case Valid it s iterCmp of
        Inl p \<Rightarrow> Some (Inl p)
      | Inr (False, it') \<Rightarrow> Some (Inr ([], it', s))
      | Inr (True, it') \<Rightarrow>
          (case Get it' s of
             Inl p \<Rightarrow> Some (Inl p)
           | Inr k \<Rightarrow>
               (case Next (Suc fuel) it' s iterCmp of
                  None \<Rightarrow> None
                | Some (Inl p) \<Rightarrow> Some (Inl p)
                | Some (Inr (it2, s')) \<Rightarrow>
                    (case iterate fuel it2 s' iterCmp of
                       None \<Rightarrow> None
                     | Some (Inl p) \<Rightarrow> Some (Inl p)
                     | Some (Inr (ks, it3, s'')) \<Rightarrow>
                         Some (Inr ((GetNode it', k) # ks, it3, s''))))))"

fun iterate_go ::
  "nat \<Rightarrow> Iterator \<Rightarrow> itemptr skiplist \<Rightarrow> (itemptr \<Rightarrow> itemptr \<Rightarrow> int) \<Rightarrow>
   (panic + ((nat option \<times> string) list \<times> Iterator \<times> itemptr skiplist)) option" where
  "iterate_go 0 it s iterCmp = None"
| "iterate_go (Suc fuel) it s iterCmp =
     (case Valid_go it s of
        (False, it') \<Rightarrow> Some (Inr ([], it', s))
      | (True, it') \<Rightarrow>
          (case Get it' s of
             Inl p \<Rightarrow> Some (Inl p)
           | Inr k \<Rightarrow>
               (case Next_go (Suc fuel) it' s iterCmp of
                  None \<Rightarrow> None
                | Some (Inl p) \<Rightarrow> Some (Inl p)
                | Some (Inr (it2, s')) \<Rightarrow>
                    (case iterate_go fuel it2 s' iterCmp of
                       None \<Rightarrow> None
                     | Some (Inl p) \<Rightarrow> Some (Inl p)
                     | Some (Inr (ks, it3, s'')) \<Rightarrow>
                         Some (Inr ((GetNode it', k) # ks, it3, s''))))))"

text \<open>The first \<open>n\<close> rounds of the same loop, each call of \<open>Next\<close> with the given fuel.\<close>

fun iterate_n ::
  "nat \<Rightarrow> nat \<Rightarrow> Iterator \<Rightarrow> itemptr skiplist \<Rightarrow> (itemptr \<Rightarrow> itemptr \<Rightarrow> int) \<Rightarrow>
   (panic + ((nat option \<times> string) list \<times> Iterator \<times> itemptr skiplist)) option" where
  "iterate_n 0 fuel it s iterCmp = Some (Inr ([], it, s))"
| "iterate_n (Suc n) fuel it s iterCmp =
     (case Valid it s iterCmp of
        Inl p \<Rightarrow> Some (Inl p)
      | Inr (False, it') \<Rightarrow> Some (Inr ([], it', s))
      | Inr (True, it') \<Rightarrow>
          (case Get it' s of
             Inl p \<Rightarrow> Some (Inl p)
           | Inr k \<Rightarrow>
               (case Next fuel it' s iterCmp of
                  None \<Rightarrow> None
                | Some (Inl p) \<Rightarrow> Some (Inl p)
                | Some (Inr (it2, s')) \<Rightarrow>
                    (case iterate_n n fuel it2 s' iterCmp of
                       None \<Rightarrow> None
                     | Some (Inl p) \<Rightarrow> Some (Inl p)
                     | Some (Inr (ks, it3, s'')) \<Rightarrow>
                         Some (Inr ((GetNode it', k) # ks, it3, s''))))))"

section \<open>The level-0 chain\<close>

text \<open>
  Reading the level-0 next-pointer of a node: whether the node has one, where it leads and
  whether it is marked. \<open>path0 s a ns\<close> says that the level-0 pointers lead from \<open>a\<close>
  through the nodes \<open>ns\<close> in this order.
\<close>

definition has0 :: "'a skiplist \<Rightarrow> nat \<Rightarrow> bool" where
  "has0 s n = (0 < length (nexts (store s n)))"

definition next0 :: "'a skiplist \<Rightarrow> nat \<Rightarrow> nat option" where
  "next0 s n = (case nexts (store s n) of [] \<Rightarrow> None | x # _ \<Rightarrow> fst x)"

definition marked0 :: "'a skiplist \<Rightarrow> nat \<Rightarrow> bool" where
  "marked0 s n = (case nexts (store s n) of [] \<Rightarrow> False | x # _ \<Rightarrow> snd x)"

fun path0 :: "'a skiplist \<Rightarrow> nat \<Rightarrow> nat list \<Rightarrow> bool" where
  "path0 s a [] = True"
| "path0 s a (n # ns) = (has0 s a \<and> next0 s a = Some n \<and> path0 s n ns)"

text \<open>
  A skiplist iterator that stands on the node \<open>c\<close> of a chain whose remaining nodes up to
  the tail are \<open>rest\<close>: it is valid, its deleted flag is clear, and when \<open>c\<close> is marked
  its \<open>prev\<close> is the unmarked node in front of \<open>c\<close>, as \<open>SeekFirst\<close>, \<open>Seek\<close>
  and \<open>Next\<close> leave it.
\<close>

definition at_node :: "'a skiplist \<Rightarrow> sl_iterator \<Rightarrow> nat \<Rightarrow> nat list \<Rightarrow> bool" where
  "at_node s i c rest =
     (curr i = Some c \<and> valid i \<and> \<not> deleted i \<and>
      path0 s c (rest @ [tail s]) \<and> distinct (c # rest @ [tail s]) \<and>
      (if marked0 s c then
         (case prev i of
            None \<Rightarrow> False
          | Some p \<Rightarrow> has0 s p \<and> next0 s p = Some c \<and> \<not> marked0 s p \<and>
                      p \<notin> set (c # rest @ [tail s]))
       else True))"

text \<open>The nodes of a list that carry an item, and those whose item a snapshot sees.\<close>

definition is_item :: "itemptr skiplist \<Rightarrow> nat \<Rightarrow> bool" where
  "is_item s n = (case Item s n of ItemPtr _ \<Rightarrow> True | _ \<Rightarrow> False)"

definition node_visible :: "itemptr skiplist \<Rightarrow> nat \<Rightarrow> nat \<Rightarrow> bool" where
  "node_visible s S n = (case Item s n of ItemPtr i \<Rightarrow> visible S i | _ \<Rightarrow> False)"

text \<open>
  The iterator stands in front of the nodes \<open>ns\<close> that remain up to the tail: on the
  first of them, or on the tail when none remains.
\<close>

definition at_pos :: "'a skiplist \<Rightarrow> sl_iterator \<Rightarrow> nat list \<Rightarrow> bool" where
  "at_pos s i ns =
     (case ns of
        [] \<Rightarrow> curr i = Some (tail s) \<and> \<not> deleted i
      | c # rest \<Rightarrow> at_node s i c rest)"

text \<open>
  What relinking leaves alone: the sentinels, the level, the items and the heights of the
  nodes.
\<close>

definition same_items :: "'a skiplist \<Rightarrow> 'a skiplist \<Rightarrow> bool" where
  "same_items s s' =
     (head s' = head s \<and> tail s' = tail s \<and> level s' = level s \<and>
      (\<forall>n. Item s' n = Item s n \<and> has0 s' n = has0 s n))"

text \<open>
  The level-0 chain of a skiplist: the pointers lead from the head through the nodes
  \<open>ns\<close> to the tail, no node occurs twice, and the sentinels are not marked.
\<close>

definition chain0 :: "'a skiplist \<Rightarrow> nat list \<Rightarrow> bool" where
  "chain0 s ns =
     (path0 s (head s) (ns @ [tail s]) \<and> distinct (head s # ns @ [tail s]) \<and>
      \<not> marked0 s (head s) \<and> has0 s (tail s) \<and> \<not> marked0 s (tail s))"

text \<open>The end bound of an iterator, as \<open>Valid\<close> tests it on a node's item.\<close>

definition below_end :: "Iterator \<Rightarrow> itemptr skiplist \<Rightarrow> (itemptr \<Rightarrow> itemptr \<Rightarrow> int) \<Rightarrow> nat \<Rightarrow> bool" where
  "below_end it s iterCmp n =
     (case endItm it of None \<Rightarrow> True | Some e \<Rightarrow> iterCmp (Item s n) e < 0)"

definition key_of :: "itemptr skiplist \<Rightarrow> nat \<Rightarrow> string" where
  "key_of s n = (case Item s n of ItemPtr i \<Rightarrow> bytes i | _ \<Rightarrow> [])"

text \<open>The fields of the snapshot iterator that seeking and stepping leave alone.\<close>

definition kept :: "Iterator \<Rightarrow> Iterator \<Rightarrow> bool" where
  "kept it it' =
     (endItm it' = endItm it \<and> snap_sn it' = snap_sn it \<and> refreshRate it' = refreshRate it)"

text \<open>
  An entry read by the iteration loop names a node whose item compares below the end item.
\<close>

definition emitted_below ::
  "itemptr skiplist \<Rightarrow> (itemptr \<Rightarrow> itemptr \<Rightarrow> int) \<Rightarrow> itemptr \<Rightarrow> (nat option \<times> string) \<Rightarrow> bool" where
  "emitted_below s iterCmp e r =
     (case fst r of Some n \<Rightarrow> iterCmp (Item s n) e < 0 | None \<Rightarrow> False)"

text \<open>
  A valid skiplist iterator on the node \<open>c\<close> whose \<open>prev\<close> is the unmarked node \<open>p\<close>
  in front of it on level 0; \<open>rest\<close> are the nodes between \<open>c\<close> and the tail.
\<close>

definition linked_at :: "'a skiplist \<Rightarrow> sl_iterator \<Rightarrow> nat \<Rightarrow> nat \<Rightarrow> nat list \<Rightarrow> bool" where
  "linked_at s i p c rest =
     (prev i = Some p \<and> curr i = Some c \<and> valid i \<and> \<not> deleted i \<and>
      has0 s p \<and> next0 s p = Some c \<and> \<not> marked0 s p \<and>
      path0 s c (rest @ [tail s]) \<and> distinct (p # c # rest @ [tail s]))"

text \<open>
  How the search treats a node of the chain: it passes a node that is marked, that the skip
  function rejects, or that compares below the item it looks for; a node that is neither
  marked nor rejected is live.
\<close>

definition skipped :: "'a skiplist \<Rightarrow> ('a \<Rightarrow> bool) option \<Rightarrow> nat \<Rightarrow> bool" where
  "skipped s skipItm n = (case skipItm of None \<Rightarrow> False | Some skip \<Rightarrow> skip (Item s n))"

definition live :: "'a skiplist \<Rightarrow> ('a \<Rightarrow> bool) option \<Rightarrow> nat \<Rightarrow> bool" where
  "live s skipItm n = (\<not> marked0 s n \<and> \<not> skipped s skipItm n)"

definition passes ::
  "'a skiplist \<Rightarrow> ('a \<Rightarrow> 'a \<Rightarrow> int) \<Rightarrow> 'a \<Rightarrow> ('a \<Rightarrow> bool) option \<Rightarrow> nat \<Rightarrow> bool" where
  "passes s compare x skipItm n =
     (marked0 s n \<or> skipped s skipItm n \<or> compare (Item s n) x < 0)"

text \<open>
  Where a search for \<open>x\<close> ends on the chain nodes \<open>ns\<close>: among the live nodes, in
  chain order, \<open>seek_below\<close> are the leading nodes that compare below \<open>x\<close> and
  \<open>seek_succ\<close> is the first node that does not, or the tail when there is none.
\<close>

definition seek_below ::
  "'a skiplist \<Rightarrow> ('a \<Rightarrow> 'a \<Rightarrow> int) \<Rightarrow> 'a \<Rightarrow> ('a \<Rightarrow> bool) option \<Rightarrow> nat list \<Rightarrow> nat list" where
  "seek_below s compare x skipItm ns =
     takeWhile (\<lambda>n. compare (Item s n) x < 0) (filter (live s skipItm) ns)"

definition seek_succ ::
  "'a skiplist \<Rightarrow> ('a \<Rightarrow> 'a \<Rightarrow> int) \<Rightarrow> 'a \<Rightarrow> ('a \<Rightarrow> bool) option \<Rightarrow> nat list \<Rightarrow> nat" where
  "seek_succ s compare x skipItm ns =
     hd (dropWhile (\<lambda>n. compare (Item s n) x < 0) (filter (live s skipItm) ns) @ [tail s])"


section \<open>Concrete items, comparator and skiplists\<close>

text \<open>
  Modelled from the spec: the default key comparator is bytewise, and the head and the tail
  compare as minus and plus infinity.
\<close>

fun bytesCompare :: "string \<Rightarrow> string \<Rightarrow> int" where
  "bytesCompare [] [] = 0"
| "bytesCompare [] (y # ys) = -1"
| "bytesCompare (x # xs) [] = 1"
| "bytesCompare (x # xs) (y # ys) =
     (if (of_char x :: nat) < of_char y then -1
      else if (of_char y :: nat) < of_char x then 1
      else bytesCompare xs ys)"

definition ex_compare :: "itemptr \<Rightarrow> itemptr \<Rightarrow> int" where
  "ex_compare this that =
     (if this = MinItem \<or> that = MaxItem then -1
      else if this = MaxItem \<or> that = MinItem then 1
      else (case (this, that) of
              (ItemPtr a, ItemPtr b) \<Rightarrow> bytesCompare (bytes a) (bytes b)
            | _ \<Rightarrow> 0))"

definition ex_item :: "string \<Rightarrow> itemptr" where
  "ex_item k = ItemPtr \<lparr>bornSn = 1, deadSn = 0, bytes = k\<rparr>"

text \<open>A two-level skiplist with the keys b and d; the node of d has two levels.\<close>

definition ex_store :: "nat \<Rightarrow> itemptr node" where
  "ex_store = (\<lambda>_. \<lparr>item = MinItem, nexts = []\<rparr>)
     (0 := \<lparr>item = MinItem, nexts = [(Some 1, False), (Some 2, False)]\<rparr>,
      1 := \<lparr>item = ex_item ''b'', nexts = [(Some 2, False)]\<rparr>,
      2 := \<lparr>item = ex_item ''d'', nexts = [(Some 3, False), (Some 3, False)]\<rparr>,
      3 := \<lparr>item = MaxItem, nexts = [(None, False), (None, False)]\<rparr>)"

definition ex_sl :: "itemptr skiplist" where
  "ex_sl = \<lparr>store = ex_store, head = 0, tail = 3, level = 1\<rparr>"

definition ex_ops :: "itemptr BatchOp list" where
  "ex_ops = [\<lparr>flag = 0, itm = ex_item ''a''\<rparr>, \<lparr>flag = 0, itm = ex_item ''c''\<rparr>,
             \<lparr>flag = 0, itm = ex_item ''e''\<rparr>]"

text \<open>A callback that counts the operations it is given, and one that fails.\<close>

definition ex_callb :: "(itemptr, string, nat) BatchOpCallback" where
  "ex_callb st n ops = (None, st + length ops)"

definition ex_callb_fail :: "(itemptr, string, nat) BatchOpCallback" where
  "ex_callb_fail st n ops = (Some ''failed'', st)"

definition ex_trace :: "itemptr call list" where
  "ex_trace =
    [\<lparr>c_node = 0, c_right = 1, c_pending = ex_ops, c_ops = take 1 ex_ops\<rparr>,
     \<lparr>c_node = 1, c_right = 2, c_pending = drop 1 ex_ops, c_ops = take 1 (drop 1 ex_ops)\<rparr>,
     \<lparr>c_node = 2, c_right = 3, c_pending = drop 2 ex_ops, c_ops = drop 2 ex_ops\<rparr>]"

text \<open>
  A one-level skiplist with two versions of the key c: the node 2 died at sequence number 2,
  the node 3 was born then; the key e is born at 5. A snapshot at 3 sees a and the second c.
\<close>

definition ex_iterCmp :: "itemptr \<Rightarrow> itemptr \<Rightarrow> int" where
  "ex_iterCmp a b =
     (case (a, b) of (ItemPtr x, ItemPtr y) \<Rightarrow> bytesCompare (bytes x) (bytes y) | _ \<Rightarrow> 0)"

definition mkItem :: "nat \<Rightarrow> nat \<Rightarrow> string \<Rightarrow> itemptr" where
  "mkItem b d k = ItemPtr \<lparr>bornSn = b, deadSn = d, bytes = k\<rparr>"

definition ex_store0 :: "nat \<Rightarrow> itemptr node" where
  "ex_store0 = (\<lambda>_. \<lparr>item = MinItem, nexts = []\<rparr>)
     (0 := \<lparr>item = MinItem, nexts = [(Some 1, False)]\<rparr>,
      1 := \<lparr>item = mkItem 1 0 ''a'', nexts = [(Some 2, False)]\<rparr>,
      2 := \<lparr>item = mkItem 1 2 ''c'', nexts = [(Some 3, False)]\<rparr>,
      3 := \<lparr>item = mkItem 2 0 ''c'', nexts = [(Some 4, False)]\<rparr>,
      4 := \<lparr>item = mkItem 5 0 ''e'', nexts = [(Some 5, False)]\<rparr>,
      5 := \<lparr>item = MaxItem, nexts = [(None, False)]\<rparr>)"

definition ex_sl0 :: "itemptr skiplist" where
  "ex_sl0 = \<lparr>store = ex_store0, head = 0, tail = 5, level = 0\<rparr>"

definition ex_it :: "int \<Rightarrow> nat \<Rightarrow> Iterator" where
  "ex_it r S = \<lparr>count = 0, refreshRate = r, snap_sn = S, iter = NewIterator, endItm = None\<rparr>"

definition ex_at :: "nat \<Rightarrow> nat \<Rightarrow> sl_iterator" where
  "ex_at p c = \<lparr>prev = Some p, curr = Some c, valid = True, deleted = False\<rparr>"

text \<open>A one-level skiplist with the key a and three nodes of the key c, all born at 1.\<close>

definition ex_store1 :: "nat \<Rightarrow> itemptr node" where
  "ex_store1 = (\<lambda>_. \<lparr>item = MinItem, nexts = []\<rparr>)
     (0 := \<lparr>item = MinItem, nexts = [(Some 1, False)]\<rparr>,
      1 := \<lparr>item = mkItem 1 0 ''a'', nexts = [(Some 2, False)]\<rparr>,
      2 := \<lparr>item = mkItem 1 0 ''c'', nexts = [(Some 3, False)]\<rparr>,
      3 := \<lparr>item = mkItem 1 0 ''c'', nexts = [(Some 4, False)]\<rparr>,
      4 := \<lparr>item = mkItem 1 0 ''c'', nexts = [(Some 5, False)]\<rparr>,
      5 := \<lparr>item = MaxItem, nexts = [(None, False)]\<rparr>)"

definition ex_sl1 :: "itemptr skiplist" where
  "ex_sl1 = \<lparr>store = ex_store1, head = 0, tail = 5, level = 0\<rparr>"

text \<open>The nodes and keys read by the first rounds of the loop after \<open>SeekFirst\<close>.\<close>

definition ex_rounds ::
  "nat \<Rightarrow> Iterator \<Rightarrow> itemptr skiplist \<Rightarrow> (nat option \<times> string) list option" where
  "ex_rounds n it s =
     (case SeekFirst 20 it s ex_iterCmp of
        Some (Inr (it1, s1)) \<Rightarrow>
          (case iterate_n n 20 it1 s1 ex_iterCmp of
             Some (Inr (out, _, _)) \<Rightarrow> Some out
           | _ \<Rightarrow> None)
      | _ \<Rightarrow> None)"

text \<open>
  What a result shows of the iterator, and of the next-pointers of the listed nodes.
\<close>

definition res_fst :: "(panic + ('b \<times> 'c)) option \<Rightarrow> (panic + 'b) option" where
  "res_fst r = map_option (map_sum id fst) r"

definition res_links ::
  "nat list \<Rightarrow> (panic + ('b \<times> 'a skiplist)) option \<Rightarrow> (nat option \<times> bool) list list option" where
  "res_links ns r =
     (case r of Some (Inr (_, s)) \<Rightarrow> Some (map (\<lambda>n. nexts (store s n)) ns) | _ \<Rightarrow> None)"

text \<open>
  A one-level skiplist with three versions of the key c, as a writer leaves them that puts
  the key, deletes it and puts it again, twice: node 2 lived from 1 to 2, node 3 from 2 to
  3, node 4 is born at 3. A snapshot at 3 sees a, the third c and e.
\<close>

definition ex_store2 :: "nat \<Rightarrow> itemptr node" where
  "ex_store2 = (\<lambda>_. \<lparr>item = MinItem, nexts = []\<rparr>)
     (0 := \<lparr>item = MinItem, nexts = [(Some 1, False)]\<rparr>,
      1 := \<lparr>item = mkItem 1 0 ''a'', nexts = [(Some 2, False)]\<rparr>,
      2 := \<lparr>item = mkItem 1 2 ''c'', nexts = [(Some 3, False)]\<rparr>,
      3 := \<lparr>item = mkItem 2 3 ''c'', nexts = [(Some 4, False)]\<rparr>,
      4 := \<lparr>item = mkItem 3 0 ''c'', nexts = [(Some 5, False)]\<rparr>,
      5 := \<lparr>item = mkItem 1 0 ''e'', nexts = [(Some 6, False)]\<rparr>,
      6 := \<lparr>item = MaxItem, nexts = [(None, False)]\<rparr>)"

definition ex_sl2 :: "itemptr skiplist" where
  "ex_sl2 = \<lparr>store = ex_store2, head = 0, tail = 6, level = 0\<rparr>"

text \<open>
  The whole loop after \<open>SeekFirst\<close>, in the variant with an end item and in the variant
  of iterator.go: the nodes and keys it reads, or \<open>None\<close> when it has not ended (or has
  panicked) within 20 rounds.
\<close>

definition ex_loop :: "Iterator \<Rightarrow> itemptr skiplist \<Rightarrow> (nat option \<times> string) list option" where
  "ex_loop it s =
     (case SeekFirst 20 it s ex_iterCmp of
        Some (Inr (it1, s1)) \<Rightarrow>
          (case iterate 20 it1 s1 ex_iterCmp of
             Some (Inr (out, _, _)) \<Rightarrow> Some out
           | _ \<Rightarrow> None)
      | _ \<Rightarrow> None)"

definition ex_loop_go :: "Iterator \<Rightarrow> itemptr skiplist \<Rightarrow> (nat option \<times> string) list option" where
  "ex_loop_go it s =
     (case SeekFirst 20 it s ex_iterCmp of
        Some (Inr (it1, s1)) \<Rightarrow>
          (case iterate_go 20 it1 s1 ex_iterCmp of
             Some (Inr (out, _, _)) \<Rightarrow> Some out
           | _ \<Rightarrow> None)
      | _ \<Rightarrow> None)"

text \<open>A valid skiplist iterator on the node \<open>c\<close> with the given \<open>prev\<close>.\<close>

definition ex_on :: "nat option \<Rightarrow> nat \<Rightarrow> sl_iterator" where
  "ex_on p c = \<lparr>prev = p, curr = Some c, valid = True, deleted = False\<rparr>"

text \<open>A skip function that rejects the second version of the key c.\<close>

definition ex_skip :: "(itemptr \<Rightarrow> bool) option" where
  "ex_skip = Some (\<lambda>p. p = mkItem 2 0 ''c'')"

text \<open>
  The snapshot iterator at 3 with the refresh rate 1, as \<open>Refresh\<close> leaves it on the
  first node of the key c.
\<close>

definition ex_back :: Iterator where
  "ex_back = (ex_it 1 3)\<lparr>iter := ex_at 1 2\<rparr>"


section \<open>Batch descent: unfolding the loop\<close>

text \<open>One lemma for each way an iteration of the loop can go.\<close>

lemma inner_stop:
  "\<not> (compare (Item s c) (Item s e) < 0 \<and> ops \<noteq> []) \<Longrightarrow>
   execBatchOpsInner (Suc f) s compare callb c e l ops st tr = Some (Inr (ops, None, st, tr))"
  by auto

lemma inner_panic:
  "compare (Item s c) (Item s e) < 0 \<Longrightarrow> ops \<noteq> [] \<Longrightarrow> getNext s c l = Inl p \<Longrightarrow>
   execBatchOpsInner (Suc f) s compare callb c e l ops st tr = Some (Inl p)"
  by simp

lemma inner_nil:
  "compare (Item s c) (Item s e) < 0 \<Longrightarrow> ops \<noteq> [] \<Longrightarrow> getNext s c l = Inr (None, b) \<Longrightarrow>
   execBatchOpsInner (Suc f) s compare callb c e l ops st tr = Some (Inl NilDeref)"
  by simp

lemma inner_skip:
  "compare (Item s c) (Item s e) < 0 \<Longrightarrow> ops \<noteq> [] \<Longrightarrow> getNext s c l = Inr (Some r, b) \<Longrightarrow>
   \<not> compare (itm (hd ops)) (Item s r) < 0 \<Longrightarrow>
   execBatchOpsInner (Suc f) s compare callb c e l ops st tr =
   execBatchOpsInner f s compare callb r e l ops st tr"
  by simp

lemma inner_deliver:
  "compare (Item s c) (Item s e) < 0 \<Longrightarrow> ops \<noteq> [] \<Longrightarrow> getNext s c l = Inr (Some r, b) \<Longrightarrow>
   compare (itm (hd ops)) (Item s r) < 0 \<Longrightarrow> l = 0 \<Longrightarrow>
   callb st c (take (batchOffset compare (Item s r) ops) ops) = (None, st1) \<Longrightarrow>
   execBatchOpsInner (Suc f) s compare callb c e l ops st tr =
   execBatchOpsInner f s compare callb r e l (drop (batchOffset compare (Item s r) ops) ops) st1
     (tr @ [\<lparr>c_node = c, c_right = r, c_pending = ops,
             c_ops = take (batchOffset compare (Item s r) ops) ops\<rparr>])"
  by (simp add: Let_def)

lemma inner_deliver_err:
  "compare (Item s c) (Item s e) < 0 \<Longrightarrow> ops \<noteq> [] \<Longrightarrow> getNext s c l = Inr (Some r, b) \<Longrightarrow>
   compare (itm (hd ops)) (Item s r) < 0 \<Longrightarrow> l = 0 \<Longrightarrow>
   callb st c (take (batchOffset compare (Item s r) ops) ops) = (Some er, st1) \<Longrightarrow>
   execBatchOpsInner (Suc f) s compare callb c e l ops st tr =
   Some (Inr (ops, Some er, st1, tr @ [\<lparr>c_node = c, c_right = r, c_pending = ops,
             c_ops = take (batchOffset compare (Item s r) ops) ops\<rparr>]))"
  by (simp add: Let_def)

lemma inner_descend:
  "compare (Item s c) (Item s e) < 0 \<Longrightarrow> ops \<noteq> [] \<Longrightarrow> getNext s c l = Inr (Some r, b) \<Longrightarrow>
   compare (itm (hd ops)) (Item s r) < 0 \<Longrightarrow> l \<noteq> 0 \<Longrightarrow>
   execBatchOpsInner (Suc f) s compare callb c e l ops st tr =
   (case execBatchOpsInner f s compare callb c r (l - 1) ops st tr of
       None \<Rightarrow> None
     | Some (Inl p) \<Rightarrow> Some (Inl p)
     | Some (Inr (ops', Some err, st', tr')) \<Rightarrow> Some (Inr (ops', Some err, st', tr'))
     | Some (Inr (ops', None, st', tr')) \<Rightarrow>
         execBatchOpsInner f s compare callb r e l ops' st' tr')"
  by simp

lemma inner_cases [case_names stop panic nil skip deliver deliver_err descend]:
  assumes "\<not> (compare (Item s c) (Item s e) < 0 \<and> ops \<noteq> []) \<Longrightarrow> P"
    and "\<And>p. compare (Item s c) (Item s e) < 0 \<Longrightarrow> ops \<noteq> [] \<Longrightarrow> getNext s c l = Inl p \<Longrightarrow> P"
    and "\<And>b. compare (Item s c) (Item s e) < 0 \<Longrightarrow> ops \<noteq> [] \<Longrightarrow> getNext s c l = Inr (None, b) \<Longrightarrow> P"
    and "\<And>r b. compare (Item s c) (Item s e) < 0 \<Longrightarrow> ops \<noteq> [] \<Longrightarrow>
           getNext s c l = Inr (Some r, b) \<Longrightarrow> \<not> compare (itm (hd ops)) (Item s r) < 0 \<Longrightarrow> P"
    and "\<And>r b st1. compare (Item s c) (Item s e) < 0 \<Longrightarrow> ops \<noteq> [] \<Longrightarrow>
           getNext s c l = Inr (Some r, b) \<Longrightarrow> compare (itm (hd ops)) (Item s r) < 0 \<Longrightarrow> l = 0 \<Longrightarrow>
           callb st c (take (batchOffset compare (Item s r) ops) ops) = (None, st1) \<Longrightarrow> P"
    and "\<And>r b er st1. compare (Item s c) (Item s e) < 0 \<Longrightarrow> ops \<noteq> [] \<Longrightarrow>
           getNext s c l = Inr (Some r, b) \<Longrightarrow> compare (itm (hd ops)) (Item s r) < 0 \<Longrightarrow> l = 0 \<Longrightarrow>
           callb st c (take (batchOffset compare (Item s r) ops) ops) = (Some er, st1) \<Longrightarrow> P"
    and "\<And>r b. compare (Item s c) (Item s e) < 0 \<Longrightarrow> ops \<noteq> [] \<Longrightarrow>
           getNext s c l = Inr (Some r, b) \<Longrightarrow> compare (itm (hd ops)) (Item s r) < 0 \<Longrightarrow> l \<noteq> 0 \<Longrightarrow> P"
  shows P
proof (cases "compare (Item s c) (Item s e) < 0 \<and> ops \<noteq> []")
  case False
  then show ?thesis by (rule assms(1))
next
  case cond: True
  show ?thesis
  proof (cases "getNext s c l")
    case (Inl p)
    with cond show ?thesis using assms(2) by blast
  next
    case (Inr q)
    obtain ro b where q: "q = (ro, b)" by (cases q)
    show ?thesis
    proof (cases ro)
      case None
      with cond Inr q show ?thesis using assms(3) by blast
    next
      case (Some r)
      note gn = Inr[unfolded q Some]
      show ?thesis
      proof (cases "compare (itm (hd ops)) (Item s r) < 0")
        case False
        with cond gn show ?thesis using assms(4) by blast
      next
        case lt: True
        show ?thesis
        proof (cases "l = 0")
          case False
          with cond gn lt show ?thesis using assms(7) by blast
        next
          case True
          obtain er st1 where cb: "callb st c (take (batchOffset compare (Item s r) ops) ops) = (er, st1)"
            by (cases "callb st c (take (batchOffset compare (Item s r) ops) ops)")
          show ?thesis
          proof (cases er)
            case None
            with cond gn lt True cb show ?thesis using assms(5) by blast
          next
            case (Some a)
            with cond gn lt True cb show ?thesis using assms(6) by blast
          qed
        qed
      qed
    qed
  qed
qed

lemma inner_mono:
  "execBatchOpsInner f s compare callb c e l ops st tr = Some x \<Longrightarrow> f \<le> g \<Longrightarrow>
   execBatchOpsInner g s compare callb c e l ops st tr = Some x"
proof (induction f arbitrary: g c e l ops st tr x)
  case 0
  then show ?case by simp
next
  case (Suc f)
  then obtain g' where g: "g = Suc g'" and le: "f \<le> g'" by (cases g) auto
  note IH = Suc.IH[OF _ le]
  have "execBatchOpsInner (Suc g') s compare callb c e l ops st tr = Some x"
  proof (cases rule: inner_cases[where compare=compare and s=s and c=c and e=e and ops=ops and l=l and callb=callb and st=st])
    case stop
    show ?thesis using Suc.prems(1) by (simp only: inner_stop[where compare=compare and s=s, OF stop])
  next
    case (panic p)
    show ?thesis using Suc.prems(1) by (simp only: inner_panic[where compare=compare and s=s, OF panic])
  next
    case (nil b)
    show ?thesis using Suc.prems(1) by (simp only: inner_nil[where compare=compare and s=s, OF nil])
  next
    case (skip r b)
    show ?thesis using Suc.prems(1) IH by (simp only: inner_skip[where compare=compare and s=s, OF skip])
  next
    case (deliver r b st1)
    show ?thesis using Suc.prems(1) IH by (simp only: inner_deliver[where compare=compare and s=s and callb=callb, OF deliver])
  next
    case (deliver_err r b er st1)
    show ?thesis using Suc.prems(1) by (simp only: inner_deliver_err[where compare=compare and s=s and callb=callb, OF deliver_err])
  next
    case (descend r b)
    note eq = inner_descend[where compare=compare and s=s, OF descend]
    from Suc.prems(1) obtain y where y: "execBatchOpsInner f s compare callb c r (l - 1) ops st tr = Some y"
      unfolding eq by (cases "execBatchOpsInner f s compare callb c r (l - 1) ops st tr") auto
    from IH[OF y] have y': "execBatchOpsInner g' s compare callb c r (l - 1) ops st tr = Some y" .
    show ?thesis
    proof (cases y)
      case (Inl p)
      with Suc.prems(1) y y' show ?thesis unfolding eq by auto
    next
      case (Inr q)
      obtain ops1 er st1 tr1 where q: "q = (ops1, er, st1, tr1)" by (cases q)
      show ?thesis
      proof (cases er)
        case None
        with Suc.prems(1) y Inr q
        have "execBatchOpsInner f s compare callb r e l ops1 st1 tr1 = Some x"
          unfolding eq by simp
        from IH[OF this] show ?thesis unfolding eq using y' Inr q None by auto
      next
        case (Some a)
        with Suc.prems(1) y y' Inr q show ?thesis unfolding eq by auto
      qed
    qed
  qed
  then show ?case unfolding g .
qed

section \<open>Batch descent: slices and traces\<close>

lemma take_batchOffset:
  "ops \<noteq> [] \<Longrightarrow> compare (itm (hd ops)) x < 0 \<Longrightarrow>
   take (batchOffset compare x ops) ops = takeWhile (\<lambda>op. compare (itm op) x < 0) ops"
  by (cases ops) (simp_all add: batchOffset_def takeWhile_eq_take[symmetric])

lemma drop_batchOffset:
  "ops \<noteq> [] \<Longrightarrow> compare (itm (hd ops)) x < 0 \<Longrightarrow>
   drop (batchOffset compare x ops) ops = dropWhile (\<lambda>op. compare (itm op) x < 0) ops"
  by (cases ops) (simp_all add: batchOffset_def dropWhile_eq_drop[symmetric])

lemma trace_from_append:
  "trace_from ops (xs @ ys) =
   (trace_from ops xs \<and> trace_from (drop (length (concat (map c_ops xs))) ops) ys)"
  by (induction xs arbitrary: ops) (auto simp: add.commute)

lemma ops_sorted_drop: "ops_sorted compare ops \<Longrightarrow> ops_sorted compare (drop n ops)"
  by (simp add: ops_sorted_def sorted_wrt_drop)

lemma ops_sorted_ge:
  assumes tr: "\<And>a b c. 0 \<le> compare a b \<Longrightarrow> 0 \<le> compare b c \<Longrightarrow> 0 \<le> compare a c"
    and so: "ops_sorted compare ops" and ne: "ops \<noteq> []"
    and h: "0 \<le> compare (itm (hd ops)) x"
  shows "\<forall>op \<in> set ops. 0 \<le> compare (itm op) x"
proof (cases ops)
  case Nil
  with ne show ?thesis by simp
next
  case (Cons a as)
  with so have "\<forall>b \<in> set as. 0 \<le> compare (itm b) (itm a)"
    by (simp add: ops_sorted_def)
  with h Cons tr show ?thesis by auto
qed

lemma ops_sorted_dropWhile_ge:
  assumes tr: "\<And>a b c. 0 \<le> compare a b \<Longrightarrow> 0 \<le> compare b c \<Longrightarrow> 0 \<le> compare a c"
    and so: "ops_sorted compare ops"
  shows "\<forall>op \<in> set (dropWhile (\<lambda>op. compare (itm op) x < 0) ops). 0 \<le> compare (itm op) x"
proof (cases "dropWhile (\<lambda>op. compare (itm op) x < 0) ops = []")
  case True
  show ?thesis unfolding True by simp
next
  case False
  have so': "ops_sorted compare (dropWhile (\<lambda>op. compare (itm op) x < 0) ops)"
    using so by (simp add: dropWhile_eq_drop ops_sorted_drop)
  have "\<not> compare (itm (hd (dropWhile (\<lambda>op. compare (itm op) x < 0) ops))) x < 0"
    using False hd_dropWhile[of "\<lambda>op. compare (itm op) x < 0" ops] by blast
  then have "0 \<le> compare (itm (hd (dropWhile (\<lambda>op. compare (itm op) x < 0) ops))) x" by simp
  from ops_sorted_ge[where compare=compare, OF tr so' False this] show ?thesis .
qed

lemma call_ok_deliver:
  assumes gn: "getNext s c 0 = Inr (Some r, b)" and ne: "ops \<noteq> []"
    and lt: "compare (itm (hd ops)) (Item s r) < 0"
    and lo: "\<forall>op \<in> set ops. 0 \<le> compare (itm op) (Item s c)"
  shows "call_ok s compare \<lparr>c_node = c, c_right = r, c_pending = ops,
           c_ops = take (batchOffset compare (Item s r) ops) ops\<rparr>"
proof -
  let ?P = "\<lambda>op. compare (itm op) (Item s r) < 0"
  have tk: "take (batchOffset compare (Item s r) ops) ops = takeWhile ?P ops"
    using ne lt by (rule take_batchOffset)
  have ne': "takeWhile ?P ops \<noteq> []" using ne lt by (cases ops) auto
  have up: "\<forall>op \<in> set (takeWhile ?P ops). ?P op" by (auto dest: set_takeWhileD)
  have lo': "\<forall>op \<in> set (takeWhile ?P ops). 0 \<le> compare (itm op) (Item s c)"
    using lo by (auto dest: set_takeWhileD)
  show ?thesis unfolding call_ok_def tk using gn ne' up lo' by simp
qed

lemma inner_trace:
  assumes tr: "\<And>a b c. 0 \<le> compare a b \<Longrightarrow> 0 \<le> compare b c \<Longrightarrow> 0 \<le> compare a (c::'a)"
  shows "execBatchOpsInner fuel s compare callb c e l ops st tr = Some (Inr (rem, err, st', tr')) \<Longrightarrow>
     ops_sorted compare ops \<Longrightarrow> (\<forall>op \<in> set ops. 0 \<le> compare (itm op) (Item s c)) \<Longrightarrow>
     \<exists>new. tr' = tr @ new \<and> list_all (call_ok s compare) new \<and> trace_from ops new \<and>
       (err = None \<longrightarrow> rem = drop (length (concat (map c_ops new))) ops \<and>
          (\<forall>op \<in> set rem. 0 \<le> compare (itm op) (Item s e)))"
proof (induction fuel arbitrary: c e l ops st tr rem err st' tr')
  case 0
  then show ?case by simp
next
  case (Suc f)
  note run = Suc.prems(1) and so = Suc.prems(2) and lo = Suc.prems(3)
  show ?case
  proof (cases rule: inner_cases[where compare=compare and s=s and c=c and e=e and ops=ops
           and l=l and callb=callb and st=st])
    case stop
    from run[unfolded inner_stop[where compare=compare and s=s, OF stop]]
    have res: "rem = ops" "err = None" "tr' = tr" by auto
    have "\<forall>op \<in> set ops. 0 \<le> compare (itm op) (Item s e)"
    proof (cases "ops = []")
      case True
      then show ?thesis by simp
    next
      case False
      with stop have "0 \<le> compare (Item s c) (Item s e)" by simp
      with lo tr show ?thesis by blast
    qed
    with res show ?thesis by simp
  next
    case (panic p)
    from run show ?thesis by (simp only: inner_panic[where compare=compare and s=s, OF panic]) simp
  next
    case (nil b)
    from run show ?thesis by (simp only: inner_nil[where compare=compare and s=s, OF nil]) simp
  next
    case (skip r b)
    from run have run': "execBatchOpsInner f s compare callb r e l ops st tr
         = Some (Inr (rem, err, st', tr'))"
      by (simp only: inner_skip[where compare=compare and s=s, OF skip])
    from skip(4) have "0 \<le> compare (itm (hd ops)) (Item s r)" by simp
    from ops_sorted_ge[where compare=compare, OF tr so skip(2) this]
    have lo': "\<forall>op \<in> set ops. 0 \<le> compare (itm op) (Item s r)" .
    from Suc.IH[OF run' so lo'] show ?thesis .
  next
    case (deliver r b st1)
    let ?P = "\<lambda>op. compare (itm op) (Item s r) < 0"
    let ?k = "\<lparr>c_node = c, c_right = r, c_pending = ops,
           c_ops = take (batchOffset compare (Item s r) ops) ops\<rparr>"
    have tk: "take (batchOffset compare (Item s r) ops) ops = takeWhile ?P ops"
      using deliver(2,4) by (rule take_batchOffset)
    have dr: "drop (batchOffset compare (Item s r) ops) ops = dropWhile ?P ops"
      using deliver(2,4) by (rule drop_batchOffset)
    from run have run': "execBatchOpsInner f s compare callb r e l (dropWhile ?P ops) st1 (tr @ [?k])
         = Some (Inr (rem, err, st', tr'))"
      by (simp only: inner_deliver[where compare=compare and s=s and callb=callb, OF deliver] dr)
    have so': "ops_sorted compare (dropWhile ?P ops)"
      using so by (simp add: dropWhile_eq_drop ops_sorted_drop)
    have lo': "\<forall>op \<in> set (dropWhile ?P ops). 0 \<le> compare (itm op) (Item s r)"
      using ops_sorted_dropWhile_ge[where compare=compare, OF tr so] .
    from Suc.IH[OF run' so' lo'] obtain new where
      new: "tr' = (tr @ [?k]) @ new" "list_all (call_ok s compare) new"
        "trace_from (dropWhile ?P ops) new"
        "err = None \<longrightarrow> rem = drop (length (concat (map c_ops new))) (dropWhile ?P ops) \<and>
          (\<forall>op \<in> set rem. 0 \<le> compare (itm op) (Item s e))"
      by blast
    have ok: "call_ok s compare ?k"
      using deliver(3) deliver(2,4) lo unfolding deliver(5) by (rule call_ok_deliver)
    have dw: "dropWhile ?P ops = drop (length (takeWhile ?P ops)) ops"
      by (rule dropWhile_eq_drop)
    have "tr' = tr @ (?k # new)" using new(1) by simp
    moreover have "list_all (call_ok s compare) (?k # new)" using ok new(2) by simp
    moreover have "trace_from ops (?k # new)" using new(3) by (simp add: tk dw[symmetric])
    moreover have "err = None \<longrightarrow> rem = drop (length (concat (map c_ops (?k # new)))) ops \<and>
          (\<forall>op \<in> set rem. 0 \<le> compare (itm op) (Item s e))"
      using new(4) by (simp add: tk dw add.commute)
    ultimately show ?thesis by blast
  next
    case (deliver_err r b er st1)
    let ?k = "\<lparr>c_node = c, c_right = r, c_pending = ops,
           c_ops = take (batchOffset compare (Item s r) ops) ops\<rparr>"
    from run[unfolded inner_deliver_err[where compare=compare and s=s and callb=callb,
             OF deliver_err]]
    have res: "err = Some er" "tr' = tr @ [?k]" by auto
    have ok: "call_ok s compare ?k"
      using deliver_err(3) deliver_err(2,4) lo unfolding deliver_err(5) by (rule call_ok_deliver)
    have "trace_from ops [?k]" by simp
    with res ok show ?thesis by (intro exI[of _ "[?k]"]) simp
  next
    case (descend r b)
    note eq = inner_descend[where compare=compare and s=s, OF descend]
    from run obtain y where y: "execBatchOpsInner f s compare callb c r (l - 1) ops st tr = Some y"
      unfolding eq by (cases "execBatchOpsInner f s compare callb c r (l - 1) ops st tr") auto
    show ?thesis
    proof (cases y)
      case (Inl p)
      with run y show ?thesis unfolding eq by simp
    next
      case (Inr q)
      obtain ops1 er st1 tr1 where q: "q = (ops1, er, st1, tr1)" by (cases q)
      note y' = y[unfolded Inr q]
      from Suc.IH[OF y' so lo] obtain new1 where
        n1: "tr1 = tr @ new1" "list_all (call_ok s compare) new1" "trace_from ops new1"
          "er = None \<longrightarrow> ops1 = drop (length (concat (map c_ops new1))) ops \<and>
             (\<forall>op \<in> set ops1. 0 \<le> compare (itm op) (Item s r))"
        by blast
      show ?thesis
      proof (cases er)
        case (Some a)
        with run y' have "err = Some a" "tr' = tr1" unfolding eq by simp_all
        with n1 show ?thesis by blast
      next
        case None
        with run y' have run2: "execBatchOpsInner f s compare callb r e l ops1 st1 tr1
            = Some (Inr (rem, err, st', tr'))" unfolding eq by simp
        from n1(4) None have o1: "ops1 = drop (length (concat (map c_ops new1))) ops"
          and lo1: "\<forall>op \<in> set ops1. 0 \<le> compare (itm op) (Item s r)" by simp_all
        have so1: "ops_sorted compare ops1" unfolding o1 using so by (rule ops_sorted_drop)
        from Suc.IH[OF run2 so1 lo1] obtain new2 where
          n2: "tr' = tr1 @ new2" "list_all (call_ok s compare) new2" "trace_from ops1 new2"
            "err = None \<longrightarrow> rem = drop (length (concat (map c_ops new2))) ops1 \<and>
               (\<forall>op \<in> set rem. 0 \<le> compare (itm op) (Item s e))"
          by blast
        have "tr' = tr @ (new1 @ new2)" using n1(1) n2(1) by simp
        moreover have "list_all (call_ok s compare) (new1 @ new2)" using n1(2) n2(2) by simp
        moreover have "trace_from ops (new1 @ new2)"
          using n1(3) n2(3) unfolding trace_from_append o1 by simp
        moreover have "err = None \<longrightarrow> rem = drop (length (concat (map c_ops (new1 @ new2)))) ops \<and>
               (\<forall>op \<in> set rem. 0 \<le> compare (itm op) (Item s e))"
          using n2(4) unfolding o1 by (simp add: add.commute)
        ultimately show ?thesis by blast
      qed
    qed
  qed
qed

section \<open>Batch descent: every operation is delivered\<close>

lemma drop_batchOffset_all:
  assumes "ops \<noteq> []" "\<forall>op \<in> set ops. compare (itm op) x < 0"
  shows "drop (batchOffset compare x ops) ops = []"
proof (cases ops)
  case Nil
  with assms(1) show ?thesis by simp
next
  case (Cons a as)
  with assms(2) have "\<forall>op \<in> set as. compare (itm op) x < 0" by simp
  then have tw: "takeWhile (\<lambda>op. compare (itm op) x < 0) as = as"
    by (simp only: takeWhile_eq_all_conv)
  show ?thesis unfolding Cons batchOffset_def list.sel tw by simp
qed

lemma batch_wf_next:
  assumes "batch_wf s compare rank" "rank n < rank (tail s)" "l < length (nexts (store s n))"
  obtains r b where "getNext s n l = Inr (Some r, b)" "rank n < rank r"
    "rank r < rank (tail s) \<or> r = tail s" "l < length (nexts (store s r))"
  using assms unfolding batch_wf_def getNext_def by (metis (no_types, lifting))

lemma batch_wf_tail:
  assumes "batch_wf s compare rank" "rank n < rank (tail s)"
  shows "compare (Item s n) (Item s (tail s)) < 0" "0 \<le> compare (Item s (tail s)) (Item s n)"
  using assms unfolding batch_wf_def by blast+

lemma inner_total:
  fixes s :: "'a skiplist" and callb :: "('a, 'e, 'st) BatchOpCallback"
  assumes wf: "batch_wf s compare rank"
    and ok: "\<And>st n os. fst (callb st n os) = None"
  shows "(rank c < rank (tail s) \<or> c = tail s) \<Longrightarrow> l < length (nexts (store s c)) \<Longrightarrow>
     (rank e < rank (tail s) \<or> e = tail s) \<Longrightarrow>
     (\<forall>op \<in> set ops. compare (itm op) (Item s (tail s)) < 0) \<Longrightarrow>
     (c = tail s \<and> e = tail s \<longrightarrow> ops = []) \<Longrightarrow>
     \<exists>f rem st' new. execBatchOpsInner f s compare callb c e l ops st tr
         = Some (Inr (rem, None, st', tr @ new)) \<and>
       (e = tail s \<longrightarrow> rem = []) \<and> concat (map c_ops new) @ rem = ops"
proof (induction l arbitrary: c e ops st tr rule: less_induct)
  case (less l)
  note outer = less.IH
  from less.prems show ?case
  proof (induction "rank (tail s) - rank c" arbitrary: c ops st tr rule: less_induct)
    case inner: less
    note c_ok = inner.prems(1) and lc = inner.prems(2) and e_ok = inner.prems(3)
      and h1 = inner.prems(4) and tl = inner.prems(5)
    have stop_case: ?case if st: "\<not> (compare (Item s c) (Item s e) < 0 \<and> ops \<noteq> [])"
      and r: "e = tail s \<longrightarrow> ops = []"
    proof -
      have "execBatchOpsInner (Suc 0) s compare callb c e l ops st tr
          = Some (Inr (ops, None, st, tr @ []))"
        by (simp only: inner_stop[where compare=compare and s=s, OF st] append_Nil2)
      with r show ?thesis by (intro exI[of _ "Suc 0"] exI[of _ ops] exI[of _ st] exI[of _ "[]"]) simp
    qed
    show ?case
    proof (cases "compare (Item s c) (Item s e) < 0 \<and> ops \<noteq> []")
      case False
      have "e = tail s \<longrightarrow> ops = []"
      proof
        assume e: "e = tail s"
        show "ops = []"
        proof (cases "c = tail s")
          case True
          with e tl show ?thesis by simp
        next
          case False
          with c_ok have "rank c < rank (tail s)" by simp
          from batch_wf_tail(1)[OF wf this] \<open>\<not> (compare (Item s c) (Item s e) < 0 \<and> ops \<noteq> [])\<close> e
          show ?thesis by simp
        qed
      qed
      with False show ?thesis by (rule stop_case)
    next
      case cond: True
      then have c1: "compare (Item s c) (Item s e) < 0" and ne: "ops \<noteq> []" by simp_all
      have cnt: "c \<noteq> tail s"
      proof
        assume ct: "c = tail s"
        with tl ne have "e \<noteq> tail s" by auto
        with e_ok have "rank e < rank (tail s)" by simp
        from batch_wf_tail(2)[OF wf this] c1 ct show False by simp
      qed
      with c_ok have rc: "rank c < rank (tail s)" by simp
      from batch_wf_next[OF wf rc lc] obtain r b where
        gn: "getNext s c l = Inr (Some r, b)" and rr: "rank c < rank r"
        and r_ok: "rank r < rank (tail s) \<or> r = tail s" and lr: "l < length (nexts (store s r))"
        by blast
      have less_r: "rank (tail s) - rank r < rank (tail s) - rank c"
      proof -
        from r_ok wf have "rank r \<le> rank (tail s)" by auto
        with rr show ?thesis by simp
      qed
      show ?thesis
      proof (cases "compare (itm (hd ops)) (Item s r) < 0")
        case False
        have "r \<noteq> tail s" using False h1 ne by (cases ops) auto
        then have tl': "r = tail s \<and> e = tail s \<longrightarrow> ops = []" by simp
        from inner.hyps[OF less_r r_ok lr e_ok h1 tl', of st tr] obtain f rem st' new where
          res: "execBatchOpsInner f s compare callb r e l ops st tr
             = Some (Inr (rem, None, st', tr @ new))"
            "e = tail s \<longrightarrow> rem = []" "concat (map c_ops new) @ rem = ops" by blast
        have "execBatchOpsInner (Suc f) s compare callb c e l ops st tr
             = Some (Inr (rem, None, st', tr @ new))"
          using res(1) by (simp only: inner_skip[where compare=compare and s=s, OF c1 ne gn False])
        with res(2,3) show ?thesis by blast
      next
        case lt: True
        show ?thesis
        proof (cases "l = 0")
          case l0: True
          let ?off = "batchOffset compare (Item s r) ops"
          let ?k = "\<lparr>c_node = c, c_right = r, c_pending = ops, c_ops = take ?off ops\<rparr>"
          obtain st1 where cb: "callb st c (take ?off ops) = (None, st1)"
            using ok[of st c "take ?off ops"] by (cases "callb st c (take ?off ops)") auto
          have h1': "\<forall>op \<in> set (drop ?off ops). compare (itm op) (Item s (tail s)) < 0"
            using h1 by (auto dest: in_set_dropD)
          have tl': "r = tail s \<and> e = tail s \<longrightarrow> drop ?off ops = []"
            using drop_batchOffset_all[OF ne, of compare "Item s r"] h1 by auto
          from inner.hyps[OF less_r r_ok lr e_ok h1' tl', of st1 "tr @ [?k]"]
          obtain f rem st' new where
            res: "execBatchOpsInner f s compare callb r e l (drop ?off ops) st1 (tr @ [?k])
               = Some (Inr (rem, None, st', (tr @ [?k]) @ new))"
              "e = tail s \<longrightarrow> rem = []" "concat (map c_ops new) @ rem = drop ?off ops" by blast
          have "execBatchOpsInner (Suc f) s compare callb c e l ops st tr
               = Some (Inr (rem, None, st', tr @ (?k # new)))"
            using res(1)
            by (simp only: inner_deliver[where compare=compare and s=s and callb=callb,
                  OF c1 ne gn lt l0 cb]) simp
          moreover have "concat (map c_ops (?k # new)) @ rem = ops"
            using res(3) by simp
          ultimately show ?thesis using res(2) by blast
        next
          case l1: False
          then have ll: "l - 1 < l" by simp
          have lc': "l - 1 < length (nexts (store s c))" using lc by simp
          have tl0: "c = tail s \<and> r = tail s \<longrightarrow> ops = []" using cnt by simp
          from outer[OF ll c_ok lc' r_ok h1 tl0, of st tr] obtain f1 ops1 st1 new1 where
            r1: "execBatchOpsInner f1 s compare callb c r (l - 1) ops st tr
               = Some (Inr (ops1, None, st1, tr @ new1))"
              "r = tail s \<longrightarrow> ops1 = []" "concat (map c_ops new1) @ ops1 = ops" by blast
          have h1': "\<forall>op \<in> set ops1. compare (itm op) (Item s (tail s)) < 0"
          proof -
            from r1(3) have "set ops1 \<subseteq> set ops" by (metis set_append sup_ge2)
            with h1 show ?thesis by blast
          qed
          have tl': "r = tail s \<and> e = tail s \<longrightarrow> ops1 = []" using r1(2) by simp
          from inner.hyps[OF less_r r_ok lr e_ok h1' tl', of st1 "tr @ new1"]
          obtain f2 rem st' new2 where
            r2: "execBatchOpsInner f2 s compare callb r e l ops1 st1 (tr @ new1)
               = Some (Inr (rem, None, st', (tr @ new1) @ new2))"
              "e = tail s \<longrightarrow> rem = []" "concat (map c_ops new2) @ rem = ops1" by blast
          let ?f = "max f1 f2"
          have m1: "execBatchOpsInner ?f s compare callb c r (l - 1) ops st tr
               = Some (Inr (ops1, None, st1, tr @ new1))"
            using r1(1) by (rule inner_mono) simp
          have m2: "execBatchOpsInner ?f s compare callb r e l ops1 st1 (tr @ new1)
               = Some (Inr (rem, None, st', (tr @ new1) @ new2))"
            using r2(1) by (rule inner_mono) simp
          have "execBatchOpsInner (Suc ?f) s compare callb c e l ops st tr
               = Some (Inr (rem, None, st', tr @ (new1 @ new2)))"
            unfolding inner_descend[where compare=compare and s=s, OF c1 ne gn lt l1]
            using m1 m2 by simp
          moreover have "concat (map c_ops (new1 @ new2)) @ rem = ops"
            using r1(3) r2(3) by simp
          ultimately show ?thesis using r2(2) by blast
        qed
      qed
    qed
  qed
qed

section \<open>Batch descent: the claims\<close>

lemma inner_err_remaining:
  "execBatchOpsInner fuel s compare callb c e l ops st tr = Some (Inr (rem, Some err, st', tr'))
   \<Longrightarrow> rem \<noteq> []"
proof (induction fuel arbitrary: c e l ops st tr)
  case 0
  then show ?case by simp
next
  case (Suc f)
  note run = Suc.prems
  show ?case
  proof (cases rule: inner_cases[where compare=compare and s=s and c=c and e=e and ops=ops
           and l=l and callb=callb and st=st])
    case stop
    from run[unfolded inner_stop[where compare=compare and s=s, OF stop]] show ?thesis by simp
  next
    case (panic p)
    from run[unfolded inner_panic[where compare=compare and s=s, OF panic]] show ?thesis by simp
  next
    case (nil b)
    from run[unfolded inner_nil[where compare=compare and s=s, OF nil]] show ?thesis by simp
  next
    case (skip r b)
    from run[unfolded inner_skip[where compare=compare and s=s, OF skip]] show ?thesis
      by (rule Suc.IH)
  next
    case (deliver r b st1)
    from run[unfolded inner_deliver[where compare=compare and s=s and callb=callb, OF deliver]]
    show ?thesis by (rule Suc.IH)
  next
    case (deliver_err r b er st1)
    from run[unfolded inner_deliver_err[where compare=compare and s=s and callb=callb,
               OF deliver_err]] deliver_err(2)
    show ?thesis by auto
  next
    case (descend r b)
    note eq = inner_descend[where compare=compare and s=s, OF descend]
    from run obtain y where y: "execBatchOpsInner f s compare callb c r (l - 1) ops st tr = Some y"
      unfolding eq by (cases "execBatchOpsInner f s compare callb c r (l - 1) ops st tr") auto
    show ?thesis
    proof (cases y)
      case (Inl p)
      with run y show ?thesis unfolding eq by simp
    next
      case (Inr q)
      obtain ops1 er st1 tr1 where q: "q = (ops1, er, st1, tr1)" by (cases q)
      note y' = y[unfolded Inr q]
      show ?thesis
      proof (cases er)
        case None
        with run y' have "execBatchOpsInner f s compare callb r e l ops1 st1 tr1
            = Some (Inr (rem, Some err, st', tr'))" unfolding eq by simp
        then show ?thesis by (rule Suc.IH)
      next
        case (Some a)
        with run y' have "execBatchOpsInner f s compare callb c r (l - 1) ops st tr
            = Some (Inr (rem, Some err, st', tr'))" unfolding eq by simp
        then show ?thesis by (rule Suc.IH)
      qed
    qed
  qed
qed

text \<open>
  Whatever the skiplist, the operations and the callback: when the descent comes back with a
  callback error, operations remain, so \<open>ExecBatchOps\<close> panics and never hands an error
  to its caller.
\<close>

lemma ExecBatchOps_returns_no_error:
  "ExecBatchOps fuel s ops callb compare st = Some (Inr (err, st', tr)) \<Longrightarrow> err = None"
proof (rule ccontr)
  assume run: "ExecBatchOps fuel s ops callb compare st = Some (Inr (err, st', tr))"
    and "err \<noteq> None"
  then obtain e where e: "err = Some e" by auto
  from run obtain rem where
    inner: "execBatchOpsInner fuel s compare callb (head s) (tail s) (level s) ops st []
       = Some (Inr (rem, err, st', tr))" and rem: "\<not> 0 < length rem"
    unfolding ExecBatchOps_def
    by (auto split: option.splits sum.splits prod.splits if_splits)
  from inner_err_remaining[OF inner[unfolded e]] rem show False by simp
qed

text \<open>
  C2. A callback invocation that returns an error is the last one, and \<open>ExecBatchOps\<close>
  should return that error. On the two-level skiplist with the keys b and d, three sorted
  operations and a callback that fails: the descent stops after the first invocation and
  comes back with the error and all three operations, and \<open>ExecBatchOps\<close> panics with
  "non-zero items remaining 3" instead of returning the error.
\<close>

theorem ExecBatchOps_callback_error_panics:
  "execBatchOpsInner 10 ex_sl ex_compare ex_callb_fail (head ex_sl) (tail ex_sl) (level ex_sl)
      ex_ops 0 []
    = Some (Inr (ex_ops, Some ''failed'', 0,
        [\<lparr>c_node = 0, c_right = 1, c_pending = ex_ops, c_ops = take 1 ex_ops\<rparr>]))
   \<and> ExecBatchOps 10 ex_sl ex_ops ex_callb_fail ex_compare 0 = Some (Inl (NonZeroRemaining 3))"
  by code_simp

text \<open>
  C3. On a well-formed skiplist whose tail is the upper sentinel, with operations that all
  compare below the tail and a callback that never fails, \<open>ExecBatchOps\<close> returns (given
  enough fuel) without a panic and without an error, and the slices handed to the callback,
  in order, make up the input: every operation is delivered in exactly one invocation.
\<close>

theorem ExecBatchOps_delivers_all:
  fixes s :: "'a skiplist" and callb :: "('a, 'e, 'st) BatchOpCallback"
  assumes wf: "batch_wf s compare rank"
    and ok: "\<forall>st n os. fst (callb st n os) = None"
    and below: "\<forall>op \<in> set ops. compare (itm op) (Item s (tail s)) < 0"
  shows "\<exists>N st' tr. (\<forall>fuel \<ge> N. ExecBatchOps fuel s ops callb compare st
                         = Some (Inr (None, st', tr))) \<and>
                    concat (map c_ops tr) = ops"
proof -
  from wf have h: "rank (head s) < rank (tail s) \<or> head s = tail s"
    and lv: "level s < length (nexts (store s (head s)))"
    and ht: "head s \<noteq> tail s"
    unfolding batch_wf_def by auto
  have t: "rank (tail s) < rank (tail s) \<or> tail s = tail s" by simp
  from ht have e: "head s = tail s \<and> tail s = tail s \<longrightarrow> ops = []" by simp
  from ok have ok': "\<And>st n os. fst (callb st n os) = None" by simp
  from inner_total[where callb=callb and tr="[]" and st=st, OF wf ok' h lv t below e]
  obtain f rem st' new where
    run: "execBatchOpsInner f s compare callb (head s) (tail s) (level s) ops st []
       = Some (Inr (rem, None, st', [] @ new))"
    and rem: "rem = []" and all: "concat (map c_ops new) @ rem = ops" by blast
  have "ExecBatchOps fuel s ops callb compare st = Some (Inr (None, st', new))"
    if "f \<le> fuel" for fuel
    using inner_mono[OF run that] rem by (simp add: ExecBatchOps_def)
  with all rem show ?thesis by (intro exI[of _ f] exI[of _ st'] exI[of _ new]) simp
qed

lemma ex_sl_wf: "batch_wf ex_sl ex_compare id"
proof -
  have n: "n < 3 \<longleftrightarrow> n = 0 \<or> n = 1 \<or> n = 2" for n :: nat by auto
  show ?thesis
    unfolding batch_wf_def
    by (auto simp: n ex_sl_def ex_store_def ex_compare_def ex_item_def Item_def less_Suc_eq
          nth_Cons')
qed

theorem ExecBatchOps_delivers_all_witness:
  "batch_wf ex_sl ex_compare id \<and> (\<forall>st n os. fst (ex_callb st n os) = None) \<and>
   list_all (\<lambda>op. ex_compare (itm op) (Item ex_sl (tail ex_sl)) < 0) ex_ops \<and>
   (\<exists>N st' tr. (\<forall>fuel \<ge> N. ExecBatchOps fuel ex_sl ex_ops ex_callb ex_compare (0::nat)
                         = Some (Inr (None, st', tr))) \<and>
                concat (map c_ops tr) = ex_ops) \<and>
   ExecBatchOps 10 ex_sl ex_ops ex_callb ex_compare 0 = Some (Inr (None, 3, ex_trace))"
proof -
  have ok: "\<forall>st n os. fst (ex_callb st n os) = None" by (simp add: ex_callb_def)
  have below: "\<forall>op \<in> set ex_ops. ex_compare (itm op) (Item ex_sl (tail ex_sl)) < 0"
    by (simp add: ex_ops_def ex_compare_def ex_sl_def ex_store_def Item_def ex_item_def)
  have run: "ExecBatchOps 10 ex_sl ex_ops ex_callb ex_compare 0 = Some (Inr (None, 3, ex_trace))"
    by code_simp
  from ExecBatchOps_delivers_all[OF ex_sl_wf ok below, of 0] ex_sl_wf ok below run
  show ?thesis by (simp add: list_all_iff)
qed

lemma bytesCompare_trans:
  "0 \<le> bytesCompare a b \<Longrightarrow> 0 \<le> bytesCompare b c \<Longrightarrow> 0 \<le> bytesCompare a c"
proof (induction a b arbitrary: c rule: bytesCompare.induct)
  case 1
  then show ?case by simp
next
  case (2 y ys)
  then show ?case by simp
next
  case (3 x xs)
  then show ?case by (cases c) simp_all
next
  case (4 x xs y ys)
  show ?case
  proof (cases c)
    case Nil
    then show ?thesis by simp
  next
    case (Cons z zs)
    with "4.prems" "4.IH"[of zs] show ?thesis
      by (auto split: if_splits)
  qed
qed

lemma ex_compare_trans:
  "\<forall>a b c. 0 \<le> ex_compare a b \<longrightarrow> 0 \<le> ex_compare b c \<longrightarrow> 0 \<le> ex_compare a c"
proof (intro allI impI)
  fix a b c
  assume ab: "0 \<le> ex_compare a b" and bc: "0 \<le> ex_compare b c"
  show "0 \<le> ex_compare a c"
  proof (cases a)
    case MinItem
    with ab show ?thesis by (simp add: ex_compare_def)
  next
    case MaxItem
    with bc show ?thesis by (cases c) (auto simp: ex_compare_def split: if_splits)
  next
    case (ItemPtr x)
    show ?thesis
    proof (cases c)
      case MinItem
      with ItemPtr show ?thesis by (simp add: ex_compare_def)
    next
      case MaxItem
      with bc show ?thesis by (simp add: ex_compare_def)
    next
      case cc: (ItemPtr z)
      show ?thesis
      proof (cases b)
        case MinItem
        with bc show ?thesis by (simp add: ex_compare_def)
      next
        case MaxItem
        with ab show ?thesis by (simp add: ex_compare_def)
      next
        case (ItemPtr y)
        with ab bc \<open>a = ItemPtr x\<close> cc bytesCompare_trans[of "bytes x" "bytes y" "bytes z"]
        show ?thesis by (simp add: ex_compare_def)
      qed
    qed
  qed
qed

text \<open>
  C4. Every level-0 callback invocation of a run over operations sorted by a transitive
  comparator (all of them at or above the head's item) is made with the node's level-0
  right neighbour, and the slice it delivers is the longest prefix of the operations still
  pending whose items compare below the right neighbour's item; it is not empty, every
  delivered operation lies in the span from the node's item up to the right neighbour's
  item, and each invocation's pending operations are what the previous ones left.
\<close>

theorem ExecBatchOps_level0_slices:
  assumes trans: "\<forall>a b c. 0 \<le> compare a b \<longrightarrow> 0 \<le> compare b c \<longrightarrow> 0 \<le> compare a (c::'a)"
    and sorted: "ops_sorted compare ops"
    and above: "\<forall>op \<in> set ops. 0 \<le> compare (itm op) (Item s (head s))"
    and run: "execBatchOpsInner fuel s compare callb (head s) (tail s) (level s) ops st []
                = Some (Inr (rem, err, st', tr))"
  shows "list_all (call_ok s compare) tr \<and> trace_from ops tr"
proof -
  from trans have t: "\<And>a b c. 0 \<le> compare a b \<Longrightarrow> 0 \<le> compare b c \<Longrightarrow> 0 \<le> compare a c"
    by blast
  from inner_trace[where compare=compare, OF t run sorted above] show ?thesis by auto
qed

theorem ExecBatchOps_level0_slices_witness:
  "ops_sorted ex_compare ex_ops \<and>
   list_all (\<lambda>op. 0 \<le> ex_compare (itm op) (Item ex_sl (head ex_sl))) ex_ops \<and>
   execBatchOpsInner 10 ex_sl ex_compare ex_callb (head ex_sl) (tail ex_sl) (level ex_sl)
      ex_ops 0 [] = Some (Inr ([], None, 3, ex_trace)) \<and>
   list_all (call_ok ex_sl ex_compare) ex_trace \<and> trace_from ex_ops ex_trace"
proof -
  have sorted: "ops_sorted ex_compare ex_ops" by code_simp
  have above: "\<forall>op \<in> set ex_ops. 0 \<le> ex_compare (itm op) (Item ex_sl (head ex_sl))"
    by (simp add: ex_ops_def ex_compare_def ex_sl_def ex_store_def Item_def ex_item_def)
  have run: "execBatchOpsInner 10 ex_sl ex_compare ex_callb (head ex_sl) (tail ex_sl)
     (level ex_sl) ex_ops 0 [] = Some (Inr ([], None, 3, ex_trace))"
    by code_simp
  from ExecBatchOps_level0_slices[OF ex_compare_trans sorted above run] sorted above run
  show ?thesis by (simp add: list_all_iff)
qed

section \<open>Level-0 chain: what relinking leaves alone\<close>

lemma getNext_0: "getNext s n 0 = (if has0 s n then Inr (next0 s n, marked0 s n) else Inl OutOfRange)"
  by (cases "nexts (store s n)") (simp_all add: getNext_def has0_def next0_def marked0_def)

lemma setNext_simps [simp]:
  "head (setNext s n l v) = head s" "tail (setNext s n l v) = tail s"
  "level (setNext s n l v) = level s" "Item (setNext s n l v) m = Item s m"
  "has0 (setNext s n l v) m = has0 s m"
  by (simp_all add: setNext_def Item_def has0_def)

lemma setNext_other [simp]:
  "m \<noteq> n \<Longrightarrow> next0 (setNext s n l v) m = next0 s m"
  "m \<noteq> n \<Longrightarrow> marked0 (setNext s n l v) m = marked0 s m"
  by (simp_all add: setNext_def next0_def marked0_def)

lemma setNext_same [simp]:
  "has0 s n \<Longrightarrow> next0 (setNext s n 0 v) n = fst v"
  "has0 s n \<Longrightarrow> marked0 (setNext s n 0 v) n = snd v"
  by (cases "nexts (store s n)"; simp add: setNext_def next0_def marked0_def has0_def)+

lemma softDelete_simps [simp]:
  "head (softDelete s n) = head s" "tail (softDelete s n) = tail s"
  "level (softDelete s n) = level s" "Item (softDelete s n) m = Item s m"
  "has0 (softDelete s n) m = has0 s m"
  "next0 (softDelete s n) m = next0 s m"
  by (cases "nexts (store s n)"; auto simp: softDelete_def Item_def has0_def next0_def split_beta)+

lemma softDelete_marked [simp]:
  "m \<noteq> n \<Longrightarrow> marked0 (softDelete s n) m = marked0 s m"
  "has0 s n \<Longrightarrow> marked0 (softDelete s n) n"
  by (cases "nexts (store s n)"; auto simp: softDelete_def marked0_def has0_def split_beta)+

lemma path0_setNext:
  "p \<notin> set (a # ns) \<Longrightarrow> path0 (setNext s p l v) a ns = path0 s a ns"
  by (induction ns arbitrary: a) auto

lemma path0_setNext':
  "path0 s a (ns @ [t]) \<Longrightarrow> p \<notin> set (a # ns) \<Longrightarrow> path0 (setNext s p l v) a (ns @ [t])"
  by (induction ns arbitrary: a) auto

lemma helpDelete_ok:
  "has0 s p \<Longrightarrow> next0 s p = Some c \<Longrightarrow> \<not> marked0 s p \<Longrightarrow>
   helpDelete s 0 p c nx = (True, setNext s p 0 (nx, False))"
  by (simp add: helpDelete_def getNext_0)

section \<open>Skiplist iterator on the chain\<close>

lemma same_items_refl [simp]: "same_items s s"
  by (simp add: same_items_def)

lemma same_items_trans: "same_items s s' \<Longrightarrow> same_items s' s'' \<Longrightarrow> same_items s s''"
  by (simp add: same_items_def)

lemma same_items_setNext [simp]: "same_items s (setNext s n l v)"
  by (simp add: same_items_def)

lemma same_items_softDelete [simp]: "same_items s (softDelete s n)"
  by (simp add: same_items_def)

lemma same_items_visible: "same_items s s' \<Longrightarrow> node_visible s' S n = node_visible s S n"
  by (simp add: same_items_def node_visible_def)

lemma same_items_is_item: "same_items s s' \<Longrightarrow> is_item s' n = is_item s n"
  by (simp add: same_items_def is_item_def)

text \<open>One step of the skiplist iterator from a node of the chain.\<close>

lemma sl_Next_at_node:
  assumes at: "at_node s i c rest"
  shows "\<exists>i' s'. sl_Next (Suc f) i s compare = Some (Inr (i', s')) \<and> at_pos s' i' rest \<and>
            same_items s s' \<and> (\<forall>n \<in> set rest. marked0 s' n = marked0 s n)"
proof -
  let ?n = "hd (rest @ [tail s])"
  from at have cur: "curr i = Some c" and v: "valid i" and nd: "\<not> deleted i"
    and path: "path0 s c (rest @ [tail s])" and dist: "distinct (c # rest @ [tail s])"
    by (simp_all add: at_node_def)
  from dist have ct: "c \<noteq> tail s" by auto
  from path have h: "has0 s c" and nx: "next0 s c = Some ?n" and path': "path0 s ?n (tl (rest @ [tail s]))"
    by (cases rest; simp)+
  have valid_eq: "sl_Valid i s = (True, i)"
    using cur v ct by (simp add: sl_Valid_def)
  show ?thesis
  proof (cases "marked0 s c")
    case False
    let ?i' = "i\<lparr>valid := True, prev := Some c, curr := Some ?n\<rparr>"
    have run: "sl_Next (Suc f) i s compare = Some (Inr (?i', s))"
      using nd valid_eq cur h nx False by (simp add: sl_Next_def getNext_0)
    have pos: "at_pos s ?i' rest"
    proof (cases rest)
      case Nil
      then show ?thesis using nd by (simp add: at_pos_def)
    next
      case (Cons r rs)
      with path dist nd h nx False show ?thesis
        by (auto simp: at_pos_def at_node_def)
    qed
    from run pos show ?thesis by auto
  next
    case True
    with at cur obtain p where p: "prev i = Some p" "has0 s p" "next0 s p = Some c"
      "\<not> marked0 s p" "p \<notin> set (c # rest @ [tail s])"
      by (auto simp: at_node_def split: option.splits)
    let ?s' = "setNext s p 0 (Some ?n, False)"
    let ?i' = "i\<lparr>valid := True, curr := Some ?n\<rparr>"
    have run: "sl_Next (Suc f) i s compare = Some (Inr (?i', ?s'))"
      using nd valid_eq cur h nx True p helpDelete_ok[OF p(2,3,4), of "Some ?n"]
      by (simp add: sl_Next_def getNext_0)
    have pos: "at_pos ?s' ?i' rest"
    proof (cases rest)
      case Nil
      then show ?thesis using nd by (simp add: at_pos_def)
    next
      case (Cons r rs)
      have pr: "p \<noteq> r" "p \<notin> set rs" "p \<noteq> tail s" using p(5) Cons by auto
      from path Cons have "path0 s r (rs @ [tail s])" by simp
      then have "path0 ?s' r (rs @ [tail s])"
        using pr by (intro path0_setNext') auto
      with Cons dist nd p pr show ?thesis
        by (auto simp: at_pos_def at_node_def)
    qed
    have mk: "\<forall>n \<in> set rest. marked0 ?s' n = marked0 s n"
    proof
      fix n assume "n \<in> set rest"
      with p(5) have "n \<noteq> p" by auto
      then show "marked0 ?s' n = marked0 s n" by simp
    qed
    from run pos mk show ?thesis by auto
  qed
qed

section \<open>Snapshot iterator on the chain\<close>

lemma unwanted_iff:
  "(bornSn x > S \<or> (deadSn x > 0 \<and> deadSn x \<le> S)) \<longleftrightarrow> \<not> visible S x"
  by (auto simp: visible_def)

lemma skipUnwanted_visible:
  "sl_Valid (iter it) s = (True, i') \<Longrightarrow> sl_Get i' s = Inr (ItemPtr x) \<Longrightarrow>
   visible (snap_sn it) x \<Longrightarrow>
   skipUnwanted (Suc f) it s iterCmp = Some (Inr (it\<lparr>iter := i'\<rparr>, s))"
  by (auto simp: visible_def)

lemma skipUnwanted_invisible:
  "sl_Valid (iter it) s = (True, i') \<Longrightarrow> sl_Get i' s = Inr (ItemPtr x) \<Longrightarrow>
   \<not> visible (snap_sn it) x \<Longrightarrow>
   sl_Next (Suc f) i' s (sentinelCompare iterCmp) = Some (Inr (i'', s')) \<Longrightarrow>
   skipUnwanted (Suc f) it s iterCmp =
   skipUnwanted f (it\<lparr>iter := i'', count := count it + 1\<rparr>) s' iterCmp"
  by (auto simp: visible_def)

lemma skipUnwanted_chain:
  assumes "at_pos s (iter it) ns" "list_all (is_item s) ns" "length ns < fuel"
  shows "\<exists>it' s'. skipUnwanted fuel it s iterCmp = Some (Inr (it', s')) \<and>
           at_pos s' (iter it') (dropWhile (\<lambda>n. \<not> node_visible s (snap_sn it) n) ns) \<and>
           same_items s s' \<and>
           count it' = count it + int (length (takeWhile (\<lambda>n. \<not> node_visible s (snap_sn it) n) ns)) \<and>
           refreshRate it' = refreshRate it \<and> snap_sn it' = snap_sn it \<and> endItm it' = endItm it"
  using assms
proof (induction ns arbitrary: it s fuel)
  case Nil
  then obtain f where f: "fuel = Suc f" by (cases fuel) auto
  from Nil.prems(1) have c: "curr (iter it) = Some (tail s)" and d: "\<not> deleted (iter it)"
    by (simp_all add: at_pos_def)
  show ?case unfolding f using c d
    by (cases "valid (iter it)") (simp_all add: sl_Valid_def at_pos_def)
next
  case (Cons c rest)
  then obtain f where f: "fuel = Suc f" by (cases fuel) auto
  from Cons.prems(1) have at: "at_node s (iter it) c rest" by (simp add: at_pos_def)
  then have cur: "curr (iter it) = Some c" and v: "valid (iter it)"
    and dist: "distinct (c # rest @ [tail s])" by (simp_all add: at_node_def)
  from dist have ct: "c \<noteq> tail s" by auto
  have valid_eq: "sl_Valid (iter it) s = (True, iter it)"
    using cur v ct by (simp add: sl_Valid_def)
  from Cons.prems(2) obtain x where x: "Item s c = ItemPtr x"
    by (auto simp: is_item_def split: itemptr.splits)
  have get: "sl_Get (iter it) s = Inr (ItemPtr x)" using cur x by (simp add: sl_Get_def)
  have vis: "node_visible s (snap_sn it) c = visible (snap_sn it) x"
    using x by (simp add: node_visible_def)
  show ?case
  proof (cases "visible (snap_sn it) x")
    case True
    have "skipUnwanted (Suc f) it s iterCmp = Some (Inr (it, s))"
      using skipUnwanted_visible[OF valid_eq get True, of f iterCmp] by simp
    with Cons.prems(1) vis True show ?thesis unfolding f by simp
  next
    case False
    from sl_Next_at_node[OF at, of f "sentinelCompare iterCmp"] obtain i' s' where
      nx: "sl_Next (Suc f) (iter it) s (sentinelCompare iterCmp) = Some (Inr (i', s'))"
      and pos: "at_pos s' i' rest" and same: "same_items s s'" by blast
    let ?it1 = "it\<lparr>iter := i', count := count it + 1\<rparr>"
    have step: "skipUnwanted (Suc f) it s iterCmp = skipUnwanted f ?it1 s' iterCmp"
      using valid_eq get False nx by (rule skipUnwanted_invisible)
    have items: "list_all (is_item s') rest"
      using Cons.prems(2) same_items_is_item[OF same] by (simp add: list_all_iff)
    have len: "length rest < f" using Cons.prems(3) f by simp
    have pos1: "at_pos s' (iter ?it1) rest" using pos by simp
    from Cons.IH[OF pos1 items len] obtain it' s'' where
      r: "skipUnwanted f ?it1 s' iterCmp = Some (Inr (it', s''))"
        "at_pos s'' (iter it') (dropWhile (\<lambda>n. \<not> node_visible s' (snap_sn ?it1) n) rest)"
        "same_items s' s''"
        "count it' = count ?it1 + int (length (takeWhile (\<lambda>n. \<not> node_visible s' (snap_sn ?it1) n) rest))"
        "refreshRate it' = refreshRate ?it1" "snap_sn it' = snap_sn ?it1" "endItm it' = endItm ?it1"
      by blast
    have veq: "(\<lambda>n. \<not> node_visible s' (snap_sn ?it1) n) = (\<lambda>n. \<not> node_visible s (snap_sn it) n)"
      using same_items_visible[OF same] by auto
    show ?thesis unfolding f step
      using r same_items_trans[OF same r(3)] vis False unfolding veq by simp
  qed
qed

lemma sl_SeekFirst_chain:
  assumes ch: "chain0 s ns" and nd: "\<not> deleted i"
  shows "\<exists>i'. sl_SeekFirst i s = Inr i' \<and> at_pos s i' ns"
proof -
  let ?c = "hd (ns @ [tail s])"
  from ch have path: "path0 s (head s) (ns @ [tail s])"
    and dist: "distinct (head s # ns @ [tail s])" and hm: "\<not> marked0 s (head s)"
    by (simp_all add: chain0_def)
  from path have h: "has0 s (head s)" and nx: "next0 s (head s) = Some ?c"
    by (cases ns; simp)+
  let ?i' = "i\<lparr>prev := Some (head s), curr := Some ?c, valid := True\<rparr>"
  have run: "sl_SeekFirst i s = Inr ?i'" using h nx by (simp add: sl_SeekFirst_def getNext_0)
  have "at_pos s ?i' ns"
  proof (cases ns)
    case Nil
    then show ?thesis using nd by (simp add: at_pos_def)
  next
    case (Cons c rest)
    with path dist hm h nx nd show ?thesis by (auto simp: at_pos_def at_node_def)
  qed
  with run show ?thesis by blast
qed

lemma SeekFirst_chain:
  assumes ch: "chain0 s ns" and nd: "\<not> deleted (iter it)"
    and items: "list_all (is_item s) ns" and fuel: "length ns < fuel"
  shows "\<exists>it' s'. SeekFirst fuel it s iterCmp = Some (Inr (it', s')) \<and>
           at_pos s' (iter it') (dropWhile (\<lambda>n. \<not> node_visible s (snap_sn it) n) ns) \<and>
           same_items s s' \<and>
           count it' = count it + int (length (takeWhile (\<lambda>n. \<not> node_visible s (snap_sn it) n) ns)) \<and>
           refreshRate it' = refreshRate it \<and> snap_sn it' = snap_sn it \<and> endItm it' = endItm it"
proof -
  from sl_SeekFirst_chain[where s=s and ns=ns, OF ch nd] obtain i' where
    i': "sl_SeekFirst (iter it) s = Inr i'" "at_pos s i' ns" by blast
  have pos: "at_pos s (iter (it\<lparr>iter := i'\<rparr>)) ns" using i'(2) by simp
  from skipUnwanted_chain[OF pos items fuel, of iterCmp] i'(1)
  show ?thesis by (simp add: SeekFirst_def)
qed

lemma Next_skip_chain:
  assumes at: "at_node s (iter it) c rest"
    and items: "list_all (is_item s) rest" and fuel: "length rest < fuel"
  shows "\<exists>it' s'. Next_skip fuel it s iterCmp = Some (Inr (it', s')) \<and>
           at_pos s' (iter it') (dropWhile (\<lambda>n. \<not> node_visible s (snap_sn it) n) rest) \<and>
           same_items s s' \<and>
           count it' = count it + 1 + int (length (takeWhile (\<lambda>n. \<not> node_visible s (snap_sn it) n) rest)) \<and>
           refreshRate it' = refreshRate it \<and> snap_sn it' = snap_sn it \<and> endItm it' = endItm it"
proof -
  from fuel obtain f where f: "fuel = Suc f" by (cases fuel) auto
  from sl_Next_at_node[OF at, of f "sentinelCompare iterCmp"] obtain i' s' where
    nx: "sl_Next (Suc f) (iter it) s (sentinelCompare iterCmp) = Some (Inr (i', s'))"
    and pos: "at_pos s' i' rest" and same: "same_items s s'" by blast
  let ?it1 = "it\<lparr>iter := i', count := count it + 1\<rparr>"
  have pos1: "at_pos s' (iter ?it1) rest" using pos by simp
  have items1: "list_all (is_item s') rest"
    using items same_items_is_item[OF same] by (simp add: list_all_iff)
  have veq: "(\<lambda>n. \<not> node_visible s' (snap_sn ?it1) n) = (\<lambda>n. \<not> node_visible s (snap_sn it) n)"
    using same_items_visible[OF same] by auto
  from skipUnwanted_chain[OF pos1 items1 fuel, of iterCmp] obtain it' s'' where
    r: "skipUnwanted fuel ?it1 s' iterCmp = Some (Inr (it', s''))"
      "at_pos s'' (iter it') (dropWhile (\<lambda>n. \<not> node_visible s (snap_sn it) n) rest)"
      "same_items s' s''"
      "count it' = count ?it1 + int (length (takeWhile (\<lambda>n. \<not> node_visible s (snap_sn it) n) rest))"
      "refreshRate it' = refreshRate ?it1" "snap_sn it' = snap_sn ?it1" "endItm it' = endItm ?it1"
    unfolding veq by blast
  have "Next_skip fuel it s iterCmp = Some (Inr (it', s''))"
    using nx r(1) unfolding f by (simp add: Next_skip_def)
  with r same_items_trans[OF same r(3)] show ?thesis by simp
qed

lemma same_items_key_of: "same_items s s' \<Longrightarrow> key_of s' n = key_of s n"
  by (simp add: same_items_def key_of_def)

lemma same_items_below_end:
  "same_items s s' \<Longrightarrow> endItm it' = endItm it \<Longrightarrow>
   below_end it' s' iterCmp n = below_end it s iterCmp n"
  by (cases "endItm it") (simp_all add: same_items_def below_end_def)

lemma Next_no_refresh:
  "Next_skip fuel it s iterCmp = Some (Inr (it', s')) \<Longrightarrow> refreshRate it' \<le> 0 \<Longrightarrow>
   Next fuel it s iterCmp = Some (Inr (it', s'))"
  by (simp add: Next_def)

lemma Valid_at_node:
  assumes at: "at_node s (iter it) c rest"
  shows "Valid it s iterCmp = Inr (below_end it s iterCmp c, it)"
proof -
  from at have cur: "curr (iter it) = Some c" and v: "valid (iter it)"
    and dist: "distinct (c # rest @ [tail s])" by (simp_all add: at_node_def)
  from dist have ct: "c \<noteq> tail s" by auto
  have valid_eq: "sl_Valid (iter it) s = (True, iter it)"
    using cur v ct by (simp add: sl_Valid_def)
  have get: "sl_Get (iter it) s = Inr (Item s c)" using cur by (simp add: sl_Get_def)
  show ?thesis using valid_eq get
    by (cases "endItm it") (auto simp: Valid_def below_end_def)
qed

lemma Valid_at_tail:
  assumes "curr (iter it) = Some (tail s)"
  shows "\<exists>it'. Valid it s iterCmp = Inr (False, it')"
  using assms by (cases "valid (iter it)") (simp_all add: Valid_def sl_Valid_def)

lemma iterate_chain:
  assumes "refreshRate it \<le> 0"
    and "at_pos s (iter it) (dropWhile (\<lambda>n. \<not> node_visible s (snap_sn it) n) ns)"
    and "list_all (is_item s) ns" and "length ns < fuel"
  shows "\<exists>it' s'. iterate fuel it s iterCmp =
            Some (Inr (map (\<lambda>n. (Some n, key_of s n))
                        (takeWhile (below_end it s iterCmp)
                           (filter (node_visible s (snap_sn it)) ns)), it', s')) \<and>
           same_items s s'"
  using assms
proof (induction ns arbitrary: it s fuel)
  case Nil
  then obtain f where f: "fuel = Suc f" by (cases fuel) auto
  from Nil.prems(2) have "curr (iter it) = Some (tail s)" by (simp add: at_pos_def)
  from Valid_at_tail[OF this, of iterCmp] obtain it' where "Valid it s iterCmp = Inr (False, it')"
    by blast
  then show ?case unfolding f by simp
next
  case (Cons c rest)
  then obtain f where f: "fuel = Suc f" by (cases fuel) auto
  show ?case
  proof (cases "node_visible s (snap_sn it) c")
    case False
    have "length rest < fuel" using Cons.prems(4) by simp
    have "at_pos s (iter it) (dropWhile (\<lambda>n. \<not> node_visible s (snap_sn it) n) rest)"
      using Cons.prems(2) False by simp
    moreover have "list_all (is_item s) rest" using Cons.prems(3) by simp
    ultimately show ?thesis
      using Cons.IH[OF Cons.prems(1) _ _ \<open>length rest < fuel\<close>] False by simp
  next
    case vis: True
    with Cons.prems(2) have at: "at_node s (iter it) c rest" by (simp add: at_pos_def)
    note va = Valid_at_node[OF at, of iterCmp]
    show ?thesis
    proof (cases "below_end it s iterCmp c")
      case False
      with va vis show ?thesis unfolding f by simp
    next
      case be: True
      from Cons.prems(3) obtain x where x: "Item s c = ItemPtr x"
        by (auto simp: is_item_def split: itemptr.splits)
      from at have cur: "curr (iter it) = Some c" by (simp add: at_node_def)
      have get: "Get it s = Inr (key_of s c)"
        using cur x by (simp add: Get_def sl_Get_def key_of_def)
      have gn: "GetNode it = Some c" using cur by (simp add: GetNode_def sl_GetNode_def)
      have items: "list_all (is_item s) rest" using Cons.prems(3) by simp
      have len: "length rest < Suc f" using Cons.prems(4) f by simp
      from Next_skip_chain[OF at items len, of iterCmp] obtain it1 s1 where
        n1: "Next_skip (Suc f) it s iterCmp = Some (Inr (it1, s1))"
        and pos1: "at_pos s1 (iter it1) (dropWhile (\<lambda>n. \<not> node_visible s (snap_sn it) n) rest)"
        and same1: "same_items s s1" and rr: "refreshRate it1 = refreshRate it"
        and sn: "snap_sn it1 = snap_sn it" and en: "endItm it1 = endItm it" by blast
      have rr1: "refreshRate it1 \<le> 0" using rr Cons.prems(1) by simp
      have nx: "Next (Suc f) it s iterCmp = Some (Inr (it1, s1))"
        using n1 rr1 by (rule Next_no_refresh)
      have veq: "node_visible s1 (snap_sn it1) = node_visible s (snap_sn it)"
        using same_items_visible[OF same1] sn by auto
      have pos1': "at_pos s1 (iter it1) (dropWhile (\<lambda>n. \<not> node_visible s1 (snap_sn it1) n) rest)"
        using pos1 unfolding veq .
      have items1: "list_all (is_item s1) rest"
        using items same_items_is_item[OF same1] by (simp add: list_all_iff)
      have len1: "length rest < f" using Cons.prems(4) f by simp
      from Cons.IH[OF rr1 pos1' items1 len1] obtain it' s' where
        r: "iterate f it1 s1 iterCmp =
              Some (Inr (map (\<lambda>n. (Some n, key_of s1 n))
                        (takeWhile (below_end it1 s1 iterCmp)
                           (filter (node_visible s1 (snap_sn it1)) rest)), it', s'))"
        and same2: "same_items s1 s'" by blast
      have keq: "(\<lambda>n. (Some n, key_of s1 n)) = (\<lambda>n. (Some n, key_of s n))"
        using same_items_key_of[OF same1] by auto
      have beq: "below_end it1 s1 iterCmp = below_end it s iterCmp"
        using same_items_below_end[OF same1 en] by auto
      have "iterate (Suc f) it s iterCmp =
              Some (Inr ((Some c, key_of s c) # map (\<lambda>n. (Some n, key_of s n))
                        (takeWhile (below_end it s iterCmp)
                           (filter (node_visible s (snap_sn it)) rest)), it', s'))"
        using va be get gn nx r unfolding keq beq veq by simp
      with vis be same_items_trans[OF same1 same2] show ?thesis unfolding f by simp
    qed
  qed
qed

section \<open>Seeking and stepping keep the items and the end bound\<close>

lemma same_items_helpDelete: "same_items s (snd (helpDelete s l p c nx))"
  by (auto simp: helpDelete_def split: sum.splits prod.splits option.splits bool.splits)

lemma findPath2_walk_same_items:
  "findPath2_walk fuel s itm' compare skipItm link pred = Some (Inr (fnd, p0, s0, s')) \<Longrightarrow>
   same_items s s'"
proof (induction fuel arbitrary: s link pred)
  case 0
  then show ?case by simp
next
  case (Suc f)
  from Suc.prems obtain c m where gl: "getNext s link 0 = Inr (Some c, m)"
    by (auto split: sum.splits prod.splits option.splits)
  from Suc.prems gl obtain nx mk where gc: "getNext s c 0 = Inr (nx, mk)"
    by (auto split: sum.splits prod.splits option.splits)
  show ?case
  proof (cases mk)
    case True
    obtain ok s1 where hd: "helpDelete s 0 link c nx = (ok, s1)"
      by (cases "helpDelete s 0 link c nx")
    have s1: "same_items s s1" using same_items_helpDelete[of s 0 link c nx] hd by simp
    from Suc.prems gl gc True hd
    have "\<exists>l'. findPath2_walk f s1 itm' compare skipItm l' pred = Some (Inr (fnd, p0, s0, s'))"
      by (cases ok) auto
    then obtain l' where "findPath2_walk f s1 itm' compare skipItm l' pred = Some (Inr (fnd, p0, s0, s'))"
      by blast
    from Suc.IH[OF this] s1 show ?thesis by (rule same_items_trans[rotated])
  next
    case False
    show ?thesis
    proof (cases "case skipItm of None \<Rightarrow> False | Some skip \<Rightarrow> skip (Item s c)")
      case True
      with Suc.prems gl gc False
      have "findPath2_walk f s itm' compare skipItm c pred = Some (Inr (fnd, p0, s0, s'))"
        by simp
      then show ?thesis by (rule Suc.IH)
    next
      case ns: False
      show ?thesis
      proof (cases "compare (Item s c) itm' < 0")
        case True
        with Suc.prems gl gc False ns
        have "findPath2_walk f s itm' compare skipItm c c = Some (Inr (fnd, p0, s0, s'))"
          by simp
        then show ?thesis by (rule Suc.IH)
      next
        case ge: False
        with Suc.prems gl gc False ns have "s' = s" by simp
        then show ?thesis by simp
      qed
    qed
  qed
qed

lemma findPath_same_items:
  "findPath fuel s itm' compare = Some (Inr (fnd, p0, s0, s')) \<Longrightarrow> same_items s s'"
  unfolding findPath_def findPath2_def by (rule findPath2_walk_same_items)

lemma sl_SeekWithSkip_same_items:
  "sl_SeekWithSkip fuel i s compare itm' skipItm = Some (Inr (fnd, i', s')) \<Longrightarrow> same_items s s'"
  unfolding sl_SeekWithSkip_def findPath2_def
  by (auto split: option.splits sum.splits prod.splits dest: findPath2_walk_same_items)

lemma sl_Seek_same_items:
  "sl_Seek fuel i s compare itm' = Some (Inr (fnd, i', s')) \<Longrightarrow> same_items s s'"
  unfolding sl_Seek_def by (rule sl_SeekWithSkip_same_items)

lemma sl_SeekPrev_same_items:
  "sl_SeekPrev fuel i s compare itm' skipItm = Some (Inr (i', s')) \<Longrightarrow> same_items s s'"
  unfolding sl_SeekPrev_def
  by (auto split: option.splits sum.splits prod.splits if_splits dest: sl_SeekWithSkip_same_items)

lemma sl_Next_retry_same_items:
  "sl_Next_retry fuel i s compare = Some (Inr (i', s')) \<Longrightarrow> same_items s s'"
proof (induction fuel arbitrary: i s)
  case 0
  then show ?case by simp
next
  case (Suc f)
  from Suc.prems obtain c where c: "curr i = Some c" by (auto split: option.splits)
  from Suc.prems c obtain nx mk where gc: "getNext s c 0 = Inr (nx, mk)"
    by (auto split: sum.splits prod.splits option.splits)
  show ?case
  proof (cases mk)
    case False
    with Suc.prems c gc have "s' = s" by auto
    then show ?thesis by simp
  next
    case True
    obtain ok s1 where hd: "(case prev i of None \<Rightarrow> (False, s) | Some p \<Rightarrow> helpDelete s 0 p c nx) = (ok, s1)"
      by (cases "case prev i of None \<Rightarrow> (False, s) | Some p \<Rightarrow> helpDelete s 0 p c nx")
    have s1: "same_items s s1"
    proof (cases "prev i")
      case None
      with hd show ?thesis by simp
    next
      case (Some p)
      with hd same_items_helpDelete[of s 0 p c nx] show ?thesis by simp
    qed
    show ?thesis
    proof (cases ok)
      case ok: True
      with Suc.prems c gc True hd have "s' = s1" by auto
      with s1 show ?thesis by simp
    next
      case nok: False
      from Suc.prems c gc True hd nok obtain fnd p0 s0 s2 where
        fp: "findPath (Suc f) s1 (Item s1 c) compare = Some (Inr (fnd, p0, s0, s2))"
        by (auto split: option.splits sum.splits prod.splits)
      note s2 = same_items_trans[OF s1 findPath_same_items[OF fp]]
      show ?thesis
      proof (cases "fnd \<noteq> None \<and> c = s0")
        case True
        with Suc.prems c gc \<open>mk\<close> hd nok fp
        have "sl_Next_retry f (i\<lparr>valid := True, prev := Some p0, curr := Some s0\<rparr>) s2 compare
            = Some (Inr (i', s'))" by auto
        from Suc.IH[OF this] s2 show ?thesis by (rule same_items_trans[rotated])
      next
        case False
        with Suc.prems c gc \<open>mk\<close> hd nok fp have "s' = s2" by auto
        with s2 show ?thesis by simp
      qed
    qed
  qed
qed

lemma sl_Next_same_items:
  "sl_Next fuel i s compare = Some (Inr (i', s')) \<Longrightarrow> same_items s s'"
  unfolding sl_Next_def
  by (auto split: if_splits prod.splits bool.splits dest: sl_Next_retry_same_items)

lemma kept_refl [simp]: "kept it it" by (simp add: kept_def)
lemma kept_trans: "kept a b \<Longrightarrow> kept b c \<Longrightarrow> kept a c" by (simp add: kept_def)
lemma kept_upd [simp]: "kept it (it\<lparr>iter := i\<rparr>)" "kept it (it\<lparr>iter := i, count := n\<rparr>)"
  "kept it (it\<lparr>count := n\<rparr>)"
  by (simp_all add: kept_def)

lemma skipUnwanted_frame:
  "skipUnwanted fuel it s iterCmp = Some (Inr (it', s')) \<Longrightarrow> same_items s s' \<and> kept it it'"
proof (induction fuel arbitrary: it s)
  case 0
  then show ?case by simp
next
  case (Suc f)
  obtain v i1 where va: "sl_Valid (iter it) s = (v, i1)" by (cases "sl_Valid (iter it) s")
  show ?case
  proof (cases v)
    case False
    with Suc.prems va show ?thesis by auto
  next
    case True
    from Suc.prems va True obtain x where g: "sl_Get i1 s = Inr (ItemPtr x)"
      by (auto split: sum.splits itemptr.splits)
    show ?thesis
    proof (cases "bornSn x > snap_sn it \<or> (deadSn x > 0 \<and> deadSn x \<le> snap_sn it)")
      case False
      with Suc.prems va True g show ?thesis by auto
    next
      case un: True
      from Suc.prems va True g un obtain i2 s2 where
        nx: "sl_Next (Suc f) i1 s (sentinelCompare iterCmp) = Some (Inr (i2, s2))"
        by (auto split: option.splits sum.splits)
      from Suc.prems va True g un nx
      have "skipUnwanted f (it\<lparr>iter := i2, count := count it + 1\<rparr>) s2 iterCmp = Some (Inr (it', s'))"
        by auto
      from Suc.IH[OF this] sl_Next_same_items[OF nx] show ?thesis
        by (auto intro: same_items_trans simp: kept_def)
    qed
  qed
qed

lemma SeekFirst_frame:
  "SeekFirst fuel it s iterCmp = Some (Inr (it', s')) \<Longrightarrow> same_items s s' \<and> kept it it'"
  unfolding SeekFirst_def
  by (auto split: sum.splits dest!: skipUnwanted_frame simp: kept_def)

lemma Seek_frame:
  "Seek fuel it s iterCmp bs = Some (Inr (it', s')) \<Longrightarrow> same_items s s' \<and> kept it it'"
proof (cases bs)
  case None
  assume "Seek fuel it s iterCmp bs = Some (Inr (it', s'))"
  with None show ?thesis by (simp add: Seek_def SeekFirst_frame)
next
  case (Some b)
  assume run: "Seek fuel it s iterCmp bs = Some (Inr (it', s'))"
  with Some obtain fnd i1 s1 where
    sk: "sl_Seek fuel (iter it) s (sentinelCompare iterCmp) (newItem b) = Some (Inr (fnd, i1, s1))"
    and su: "skipUnwanted fuel (it\<lparr>iter := i1\<rparr>) s1 iterCmp = Some (Inr (it', s'))"
    by (auto simp: Seek_def split: option.splits sum.splits)
  from skipUnwanted_frame[OF su] sl_Seek_same_items[OF sk] show ?thesis
    by (auto intro: same_items_trans simp: kept_def)
qed

lemma Seek_go_frame:
  "Seek_go fuel it s iterCmp bs = Some (Inr (it', s')) \<Longrightarrow> same_items s s' \<and> kept it it'"
proof -
  assume run: "Seek_go fuel it s iterCmp bs = Some (Inr (it', s'))"
  then obtain i1 s1 where
    sk: "sl_SeekPrev fuel (iter it) s (sentinelCompare iterCmp)
             (newItem (case bs of None \<Rightarrow> [] | Some b \<Rightarrow> b)) None = Some (Inr (i1, s1))"
    and su: "skipUnwanted fuel (it\<lparr>iter := i1\<rparr>) s1 iterCmp = Some (Inr (it', s'))"
    by (auto simp: Seek_go_def split: option.splits sum.splits)
  from skipUnwanted_frame[OF su] sl_SeekPrev_same_items[OF sk] show ?thesis
    by (auto intro: same_items_trans simp: kept_def)
qed

lemma Valid_kept: "Valid it s iterCmp = Inr (v, it') \<Longrightarrow> kept it it'"
  by (auto simp: Valid_def kept_def split: prod.splits bool.splits option.splits sum.splits if_splits)

lemma Valid_go_kept: "Valid_go it s = (v, it') \<Longrightarrow> kept it it'"
  by (auto simp: Valid_go_def kept_def split: prod.splits)

lemma Refresh_seek_frame:
  "Refresh_seek fuel it s iterCmp = Some (Inr (it', s')) \<Longrightarrow> same_items s s' \<and> kept it it'"
  unfolding Refresh_seek_def
  by (auto split: option.splits sum.splits dest: sl_Seek_same_items simp: kept_def)

lemma Refresh_frame:
  "Refresh fuel it s iterCmp = Some (Inr (it', s')) \<Longrightarrow> same_items s s' \<and> kept it it'"
  unfolding Refresh_def
  by (auto split: sum.splits prod.splits bool.splits
        dest!: Refresh_seek_frame Valid_kept intro: kept_trans)

lemma Refresh_go_frame:
  "Refresh_go fuel it s iterCmp = Some (Inr (it', s')) \<Longrightarrow> same_items s s' \<and> kept it it'"
  unfolding Refresh_go_def
  by (auto split: prod.splits bool.splits
        dest!: Refresh_seek_frame Valid_go_kept intro: kept_trans)

lemma Next_skip_frame:
  "Next_skip fuel it s iterCmp = Some (Inr (it', s')) \<Longrightarrow> same_items s s' \<and> kept it it'"
proof -
  assume "Next_skip fuel it s iterCmp = Some (Inr (it', s'))"
  then obtain i1 s1 where
    nx: "sl_Next fuel (iter it) s (sentinelCompare iterCmp) = Some (Inr (i1, s1))"
    and su: "skipUnwanted fuel (it\<lparr>iter := i1, count := count it + 1\<rparr>) s1 iterCmp
              = Some (Inr (it', s'))"
    by (auto simp: Next_skip_def split: option.splits sum.splits)
  from skipUnwanted_frame[OF su] sl_Next_same_items[OF nx] show ?thesis
    by (auto intro: same_items_trans simp: kept_def)
qed

lemma Next_frame:
  "Next fuel it s iterCmp = Some (Inr (it', s')) \<Longrightarrow> same_items s s' \<and> kept it it'"
proof -
  assume run: "Next fuel it s iterCmp = Some (Inr (it', s'))"
  then obtain it1 s1 where ns: "Next_skip fuel it s iterCmp = Some (Inr (it1, s1))"
    by (auto simp: Next_def split: option.splits sum.splits)
  note f1 = Next_skip_frame[OF ns]
  show ?thesis
  proof (cases "refreshRate it1 > 0 \<and> count it1 > refreshRate it1")
    case False
    with run ns have "it' = it1" "s' = s1" by (auto simp: Next_def)
    with f1 show ?thesis by simp
  next
    case True
    with run ns obtain it2 where rf: "Refresh fuel it1 s1 iterCmp = Some (Inr (it2, s'))"
      and it': "it' = it2\<lparr>count := 0\<rparr>"
      by (auto simp: Next_def split: option.splits sum.splits)
    from Refresh_frame[OF rf] f1 it' show ?thesis
      by (auto intro: same_items_trans simp: kept_def)
  qed
qed

lemma Next_go_frame:
  "Next_go fuel it s iterCmp = Some (Inr (it', s')) \<Longrightarrow> same_items s s' \<and> kept it it'"
proof -
  assume run: "Next_go fuel it s iterCmp = Some (Inr (it', s'))"
  then obtain it1 s1 where ns: "Next_skip fuel it s iterCmp = Some (Inr (it1, s1))"
    by (auto simp: Next_go_def split: option.splits sum.splits)
  note f1 = Next_skip_frame[OF ns]
  show ?thesis
  proof (cases "refreshRate it1 > 0 \<and> count it1 > refreshRate it1")
    case False
    with run ns have "it' = it1" "s' = s1" by (auto simp: Next_go_def)
    with f1 show ?thesis by simp
  next
    case True
    with run ns obtain it2 where rf: "Refresh_go fuel it1 s1 iterCmp = Some (Inr (it2, s'))"
      and it': "it' = it2\<lparr>count := 0\<rparr>"
      by (auto simp: Next_go_def split: option.splits sum.splits)
    from Refresh_go_frame[OF rf] f1 it' show ?thesis
      by (auto intro: same_items_trans simp: kept_def)
  qed
qed

text \<open>What \<open>Valid\<close> with an end item lets through.\<close>

lemma Valid_true_below_end:
  assumes "Valid it s iterCmp = Inr (True, it')" and "endItm it = Some e"
  shows "\<exists>n. GetNode it' = Some n \<and> iterCmp (Item s n) e < 0"
  using assms
  by (auto simp: Valid_def GetNode_def sl_GetNode_def sl_Get_def
        split: prod.splits bool.splits option.splits sum.splits if_splits)

lemma emitted_below_same: "same_items s s' \<Longrightarrow> emitted_below s' iterCmp e = emitted_below s iterCmp e"
  by (auto simp: emitted_below_def same_items_def fun_eq_iff split: option.splits)

lemma iterate_below_end:
  "iterate fuel it s iterCmp = Some (Inr (out, it', s')) \<Longrightarrow> endItm it = Some e \<Longrightarrow>
   list_all (emitted_below s iterCmp e) out"
proof (induction fuel arbitrary: it s out)
  case 0
  then show ?case by simp
next
  case (Suc f)
  from Suc.prems(1) obtain v it1 where va: "Valid it s iterCmp = Inr (v, it1)"
    by (auto split: sum.splits)
  show ?case
  proof (cases v)
    case False
    with Suc.prems(1) va show ?thesis by auto
  next
    case True
    from va True have va: "Valid it s iterCmp = Inr (True, it1)" by simp
    from Valid_true_below_end[OF va Suc.prems(2)] obtain n where
      n: "GetNode it1 = Some n" "iterCmp (Item s n) e < 0" by blast
    from Suc.prems(1) va obtain k it2 s2 ks where
      g: "Get it1 s = Inr k" and nx: "Next (Suc f) it1 s iterCmp = Some (Inr (it2, s2))"
      and rec: "iterate f it2 s2 iterCmp = Some (Inr (ks, it', s'))"
      and out: "out = (GetNode it1, k) # ks"
      by (auto split: sum.splits option.splits prod.splits)
    from Next_frame[OF nx] Valid_kept[OF va] Suc.prems(2)
    have same: "same_items s s2" and e2: "endItm it2 = Some e" by (auto simp: kept_def)
    from Suc.IH[OF rec e2] have "list_all (emitted_below s2 iterCmp e) ks" .
    then have "list_all (emitted_below s iterCmp e) ks"
      unfolding emitted_below_same[OF same] .
    moreover have "emitted_below s iterCmp e (GetNode it1, k)"
      using n by (simp add: emitted_below_def)
    ultimately show ?thesis unfolding out by simp
  qed
qed

section \<open>The whole iteration on the chain\<close>

lemma sorted_wrt_takeWhile_filter:
  assumes "sorted_wrt R ns"
  shows "sorted_wrt R (takeWhile P (filter Q ns))"
proof -
  have "sorted_wrt R (filter Q ns)" using assms by (rule sorted_wrt_filter)
  then have "sorted_wrt R (take (length (takeWhile P (filter Q ns))) (filter Q ns))"
    by (rule sorted_wrt_take)
  then show ?thesis by (simp only: takeWhile_eq_take[symmetric])
qed

lemma SeekFirst_iterate_chain:
  assumes ch: "chain0 s ns" and items: "list_all (is_item s) ns"
    and fresh: "\<not> deleted (iter it)" and norefresh: "refreshRate it \<le> 0"
    and fuel: "length ns < fuel"
  shows "\<exists>it1 s1 it2 s2.
           SeekFirst fuel it s iterCmp = Some (Inr (it1, s1)) \<and>
           iterate fuel it1 s1 iterCmp
             = Some (Inr (map (\<lambda>n. (Some n, key_of s n))
                       (takeWhile (below_end it s iterCmp)
                          (filter (node_visible s (snap_sn it)) ns)), it2, s2))"
proof -
  from SeekFirst_chain[OF ch fresh items fuel, of iterCmp] obtain it1 s1 where
    sf: "SeekFirst fuel it s iterCmp = Some (Inr (it1, s1))"
    and pos: "at_pos s1 (iter it1) (dropWhile (\<lambda>n. \<not> node_visible s (snap_sn it) n) ns)"
    and same: "same_items s s1" and rr: "refreshRate it1 = refreshRate it"
    and sn: "snap_sn it1 = snap_sn it" and en: "endItm it1 = endItm it" by blast
  have rr1: "refreshRate it1 \<le> 0" using rr norefresh by simp
  have veq: "node_visible s1 (snap_sn it1) = node_visible s (snap_sn it)"
    using same_items_visible[OF same] sn by auto
  have pos1: "at_pos s1 (iter it1) (dropWhile (\<lambda>n. \<not> node_visible s1 (snap_sn it1) n) ns)"
    using pos unfolding veq .
  have items1: "list_all (is_item s1) ns"
    using items same_items_is_item[OF same] by (simp add: list_all_iff)
  from iterate_chain[OF rr1 pos1 items1 fuel, of iterCmp] obtain it2 s2 where
    r: "iterate fuel it1 s1 iterCmp =
          Some (Inr (map (\<lambda>n. (Some n, key_of s1 n))
                   (takeWhile (below_end it1 s1 iterCmp)
                      (filter (node_visible s1 (snap_sn it1)) ns)), it2, s2))" by blast
  have keq: "(\<lambda>n. (Some n, key_of s1 n)) = (\<lambda>n. (Some n, key_of s n))"
    using same_items_key_of[OF same] by auto
  have beq: "below_end it1 s1 iterCmp = below_end it s iterCmp"
    using same_items_below_end[OF same en] by auto
  from sf r show ?thesis unfolding keq beq veq by blast
qed

section \<open>\<open>SeekFirst\<close> from any iterator state\<close>

text \<open>
  \<open>SeekFirst\<close> moves the cursor to the first node whatever the iterator held before.
  When the deleted flag of the skiplist iterator is still set, the first \<open>Next\<close> of
  \<open>skipUnwanted\<close> only clears it, which costs one more round and no position.
\<close>

lemma sl_SeekFirst_run:
  assumes ch: "chain0 s ns"
  shows "sl_SeekFirst i s = Inr (i\<lparr>prev := Some (head s), curr := Some (hd (ns @ [tail s])), valid := True\<rparr>)"
proof -
  from ch have path: "path0 s (head s) (ns @ [tail s])" by (simp add: chain0_def)
  then have "has0 s (head s)" "next0 s (head s) = Some (hd (ns @ [tail s]))"
    by (cases ns; simp)+
  then show ?thesis by (simp add: sl_SeekFirst_def getNext_0)
qed

lemma at_pos_cursor:
  assumes pos: "at_pos s' (iter it') (dropWhile P ns)" and same: "same_items s s'"
    and ends: "endItm it' = endItm it"
  shows "case dropWhile P ns of
           [] \<Rightarrow> GetNode it' = Some (tail s) \<and> (\<exists>it2. Valid it' s' iterCmp = Inr (False, it2))
         | v # vs \<Rightarrow> GetNode it' = Some v \<and> \<not> P v \<and>
                     (\<exists>it2. Valid it' s' iterCmp = Inr (below_end it s iterCmp v, it2))"
proof (cases "dropWhile P ns")
  case Nil
  with pos have c: "curr (iter it') = Some (tail s')" by (simp add: at_pos_def)
  from Valid_at_tail[OF c] c same show ?thesis unfolding Nil
    by (simp add: GetNode_def sl_GetNode_def same_items_def)
next
  case (Cons v vs)
  from hd_dropWhile[of P ns] Cons have np: "\<not> P v" by auto
  from pos Cons have at: "at_node s' (iter it') v vs" by (simp add: at_pos_def)
  then have c: "curr (iter it') = Some v" by (simp add: at_node_def)
  from Valid_at_node[OF at, of iterCmp] same_items_below_end[OF same ends, of iterCmp v] c np
  show ?thesis unfolding Cons by (simp add: GetNode_def sl_GetNode_def)
qed

lemma SeekFirst_any_cursor:
  assumes ch: "chain0 s ns" and items: "list_all (is_item s) ns"
    and fuel: "Suc (length ns) < fuel"
  shows "\<exists>it' s'. SeekFirst fuel it s iterCmp = Some (Inr (it', s')) \<and> same_items s s' \<and>
           (case dropWhile (\<lambda>n. \<not> node_visible s (snap_sn it) n) ns of
              [] \<Rightarrow> GetNode it' = Some (tail s) \<and>
                    (\<exists>it2. Valid it' s' iterCmp = Inr (False, it2))
            | v # vs \<Rightarrow> GetNode it' = Some v \<and> \<not> \<not> node_visible s (snap_sn it) v \<and>
                        (\<exists>it2. Valid it' s' iterCmp = Inr (below_end it s iterCmp v, it2)))"
proof (cases "deleted (iter it)")
  case False
  from fuel have f: "length ns < fuel" by simp
  from SeekFirst_chain[OF ch False items f, of iterCmp] obtain it' s' where
    r: "SeekFirst fuel it s iterCmp = Some (Inr (it', s'))"
      "at_pos s' (iter it') (dropWhile (\<lambda>n. \<not> node_visible s (snap_sn it) n) ns)"
      "same_items s s'" "endItm it' = endItm it" by blast
  from at_pos_cursor[OF r(2) r(3) r(4), of iterCmp] r(1) r(3) show ?thesis by blast
next
  case True
  let ?inv = "\<lambda>n. \<not> node_visible s (snap_sn it) n"
  let ?i1 = "(iter it)\<lparr>prev := Some (head s), curr := Some (hd (ns @ [tail s])), valid := True\<rparr>"
  from fuel obtain f where fu: "fuel = Suc f" and f: "length ns < f" by (cases fuel) auto
  have sf: "SeekFirst fuel it s iterCmp = skipUnwanted (Suc f) (it\<lparr>iter := ?i1\<rparr>) s iterCmp"
    by (simp add: SeekFirst_def sl_SeekFirst_run[OF ch] fu)
  show ?thesis
  proof (cases ns)
    case Nil
    have "skipUnwanted (Suc f) (it\<lparr>iter := ?i1\<rparr>) s iterCmp
            = Some (Inr (it\<lparr>iter := ?i1\<lparr>valid := False\<rparr>\<rparr>, s))"
      using Nil by (simp add: sl_Valid_def)
    moreover have "\<exists>it2. Valid (it\<lparr>iter := ?i1\<lparr>valid := False\<rparr>\<rparr>) s iterCmp = Inr (False, it2)"
      by (rule Valid_at_tail) (simp add: Nil)
    ultimately show ?thesis using sf Nil by (simp add: GetNode_def sl_GetNode_def)
  next
    case (Cons v vs)
    from ch Cons have vt: "v \<noteq> tail s" by (auto simp: chain0_def)
    from items Cons obtain x where x: "Item s v = ItemPtr x"
      by (auto simp: is_item_def split: itemptr.splits)
    have va: "sl_Valid (iter (it\<lparr>iter := ?i1\<rparr>)) s = (True, ?i1)"
      using Cons vt by (simp add: sl_Valid_def)
    have ge: "sl_Get ?i1 s = Inr (ItemPtr x)" using Cons x by (simp add: sl_Get_def)
    show ?thesis
    proof (cases "visible (snap_sn it) x")
      case vis: True
      have run: "skipUnwanted (Suc f) (it\<lparr>iter := ?i1\<rparr>) s iterCmp
                  = Some (Inr (it\<lparr>iter := ?i1\<rparr>, s))"
        using skipUnwanted_visible[where f=f and iterCmp=iterCmp, OF va ge] vis by simp
      have nv: "node_visible s (snap_sn it) v" using x vis by (simp add: node_visible_def)
      have vl: "Valid (it\<lparr>iter := ?i1\<rparr>) s iterCmp
                  = Inr (below_end it s iterCmp v, it\<lparr>iter := ?i1\<rparr>)"
        using va ge x by (cases "endItm it") (auto simp: Valid_def below_end_def)
      show ?thesis using sf run nv vl Cons by (simp add: GetNode_def sl_GetNode_def)
    next
      case inv: False
      let ?i2 = "?i1\<lparr>deleted := False\<rparr>"
      have nx: "sl_Next (Suc f) ?i1 s (sentinelCompare iterCmp) = Some (Inr (?i2, s))"
        using True by (simp add: sl_Next_def)
      have step: "skipUnwanted (Suc f) (it\<lparr>iter := ?i1\<rparr>) s iterCmp
            = skipUnwanted f (it\<lparr>iter := ?i2, count := count it + 1\<rparr>) s iterCmp"
        using skipUnwanted_invisible[where iterCmp=iterCmp, OF va ge _ nx] inv by simp
      have seek: "sl_SeekFirst ?i2 s = Inr ?i2"
        using sl_SeekFirst_run[OF ch, of ?i2] by simp
      from sl_SeekFirst_chain[where s=s and ns=ns and i="?i2", OF ch] seek
      have pos: "at_pos s (iter (it\<lparr>iter := ?i2, count := count it + 1\<rparr>)) ns" by simp
      from skipUnwanted_chain[OF pos items f, of iterCmp] obtain it' s' where
        r: "skipUnwanted f (it\<lparr>iter := ?i2, count := count it + 1\<rparr>) s iterCmp = Some (Inr (it', s'))"
          "at_pos s' (iter it') (dropWhile ?inv ns)"
          "same_items s s'" "endItm it' = endItm it" by auto
      from at_pos_cursor[OF r(2) r(3) r(4), of iterCmp] r(1) r(3) sf step
      show ?thesis by auto
    qed
  qed
qed

section \<open>The search on the level-0 chain\<close>

text \<open>
  The walk of \<open>findPath2\<close> along a chain: it passes the marked nodes (unlinking them),
  the nodes the skip function rejects and the nodes that compare below the item, and stops
  at the first other node; its predecessor is the last node it has passed that is neither
  marked nor rejected.
\<close>

lemma skipped_setNext [simp]: "skipped (setNext s n l v) sk m = skipped s sk m"
  by (cases sk) (simp_all add: skipped_def)

lemma live_setNext [simp]: "m \<noteq> n \<Longrightarrow> live (setNext s n l v) sk m = live s sk m"
  by (simp add: live_def)

lemma passes_setNext [simp]:
  "m \<noteq> n \<Longrightarrow> passes (setNext s n l v) compare x sk m = passes s compare x sk m"
  by (simp add: passes_def)

lemma store_setNext_other: "m \<noteq> n \<Longrightarrow> store (setNext s n l v) m = store s m"
  by (simp add: setNext_def)

lemma findPath2_walk_stop:
  assumes "has0 s l" "next0 s l = Some c" "has0 s c" "\<not> marked0 s c"
    "\<not> skipped s skipItm c" "\<not> compare (Item s c) x < 0"
  shows "findPath2_walk (Suc f) s x compare skipItm l pd =
           Some (Inr (if compare (Item s c) x = 0 then Some c else None, pd, c, s))"
  using assms by (simp add: getNext_0 skipped_def)

lemma findPath2_walk_less:
  assumes "has0 s l" "next0 s l = Some c" "has0 s c" "\<not> marked0 s c"
    "\<not> skipped s skipItm c" "compare (Item s c) x < 0"
  shows "findPath2_walk (Suc f) s x compare skipItm l pd =
           findPath2_walk f s x compare skipItm c c"
  using assms by (simp add: getNext_0 skipped_def)

lemma findPath2_walk_skip:
  assumes "has0 s l" "next0 s l = Some c" "has0 s c" "\<not> marked0 s c"
    "skipped s skipItm c"
  shows "findPath2_walk (Suc f) s x compare skipItm l pd =
           findPath2_walk f s x compare skipItm c pd"
  using assms by (simp add: getNext_0 skipped_def)

lemma findPath2_walk_unlink:
  assumes "has0 s l" "next0 s l = Some c" "\<not> marked0 s l" "has0 s c" "marked0 s c"
  shows "findPath2_walk (Suc f) s x compare skipItm l pd =
           findPath2_walk f (setNext s l 0 (next0 s c, False)) x compare skipItm l pd"
  using assms helpDelete_ok[OF assms(1,2,3), of "next0 s c"] by (simp add: getNext_0)

lemma findPath2_walk_chain:
  assumes "path0 s l (rest @ [tail s])" "distinct (l # rest @ [tail s])" "\<not> marked0 s l"
    and "has0 s (tail s)" "\<not> marked0 s (tail s)" "\<not> skipped s skipItm (tail s)"
    and "0 \<le> compare (Item s (tail s)) x" and "length rest < fuel"
  shows "\<exists>s'. findPath2_walk fuel s x compare skipItm l pd =
            Some (Inr (if compare (Item s (hd (dropWhile (passes s compare x skipItm) rest @ [tail s]))) x = 0
                       then Some (hd (dropWhile (passes s compare x skipItm) rest @ [tail s]))
                       else None,
                       last (pd # filter (live s skipItm) (takeWhile (passes s compare x skipItm) rest)),
                       hd (dropWhile (passes s compare x skipItm) rest @ [tail s]), s')) \<and>
           same_items s s' \<and>
           (\<forall>n. n \<notin> set (l # takeWhile (passes s compare x skipItm) rest) \<longrightarrow>
                store s' n = store s n)"
  using assms
proof (induction rest arbitrary: s l pd fuel)
  case Nil
  then obtain f where f: "fuel = Suc f" by (cases fuel) auto
  from Nil.prems(1) have hl: "has0 s l" and nl: "next0 s l = Some (tail s)" by simp_all
  have "\<not> compare (Item s (tail s)) x < 0" using Nil.prems(7) by simp
  from findPath2_walk_stop[where compare=compare, OF hl nl Nil.prems(4,5,6) this, of f pd]
  show ?case unfolding f by simp
next
  case (Cons c cs)
  then obtain f where f: "fuel = Suc f" by (cases fuel) auto
  let ?P = "passes s compare x skipItm"
  from Cons.prems(1) have hl: "has0 s l" and nl: "next0 s l = Some c"
    and pc: "path0 s c (cs @ [tail s])" by simp_all
  from pc have hc: "has0 s c" and nc: "next0 s c = Some (hd (cs @ [tail s]))"
    by (cases cs; simp)+
  from Cons.prems(2) have dist: "distinct (c # cs @ [tail s])" and lc: "l \<noteq> c"
    and lcs: "l \<notin> set cs" and lt: "l \<noteq> tail s" by auto
  have len: "length cs < f" using Cons.prems(8) f by simp
  show ?case
  proof (cases "marked0 s c")
    case True
    let ?s1 = "setNext s l 0 (next0 s c, False)"
    have step: "findPath2_walk (Suc f) s x compare skipItm l pd =
           findPath2_walk f ?s1 x compare skipItm l pd"
      using hl nl Cons.prems(3) hc True by (rule findPath2_walk_unlink)
    have p1: "path0 ?s1 l (cs @ [tail ?s1])"
    proof (cases cs)
      case Nil
      then show ?thesis using hl nc by simp
    next
      case (Cons d ds)
      from pc Cons have "path0 s d (ds @ [tail s])" by simp
      then have "path0 ?s1 d (ds @ [tail s])"
        using lcs Cons by (intro path0_setNext') auto
      with Cons hl nc show ?thesis by simp
    qed
    have d1: "distinct (l # cs @ [tail ?s1])" using Cons.prems(2) by auto
    have m1: "\<not> marked0 ?s1 l" using hl by simp
    have t1: "has0 ?s1 (tail ?s1)" "\<not> marked0 ?s1 (tail ?s1)" "\<not> skipped ?s1 skipItm (tail ?s1)"
      "0 \<le> compare (Item ?s1 (tail ?s1)) x"
      using Cons.prems(4,5,6,7) lt by simp_all
    from Cons.IH[OF p1 d1 m1 t1 len, of pd] obtain s' where
      r: "findPath2_walk f ?s1 x compare skipItm l pd =
            Some (Inr (if compare (Item ?s1 (hd (dropWhile (passes ?s1 compare x skipItm) cs @ [tail ?s1]))) x = 0
                       then Some (hd (dropWhile (passes ?s1 compare x skipItm) cs @ [tail ?s1]))
                       else None,
                       last (pd # filter (live ?s1 skipItm) (takeWhile (passes ?s1 compare x skipItm) cs)),
                       hd (dropWhile (passes ?s1 compare x skipItm) cs @ [tail ?s1]), s'))"
      and same: "same_items ?s1 s'"
      and fr: "\<forall>n. n \<notin> set (l # takeWhile (passes ?s1 compare x skipItm) cs) \<longrightarrow>
                store s' n = store ?s1 n" by blast
    have eqP: "passes ?s1 compare x skipItm n = ?P n" if "n \<in> set cs" for n
    proof -
      from that lcs have "n \<noteq> l" by auto
      then show ?thesis by simp
    qed
    have eqL: "live ?s1 skipItm n = live s skipItm n" if "n \<in> set cs" for n
    proof -
      from that lcs have "n \<noteq> l" by auto
      then show ?thesis by simp
    qed
    have tw: "takeWhile (passes ?s1 compare x skipItm) cs = takeWhile ?P cs"
      by (rule takeWhile_cong) (simp_all add: eqP)
    have dw: "dropWhile (passes ?s1 compare x skipItm) cs = dropWhile ?P cs"
      by (rule dropWhile_cong) (simp_all add: eqP)
    have fl: "filter (live ?s1 skipItm) (takeWhile ?P cs) = filter (live s skipItm) (takeWhile ?P cs)"
      by (rule filter_cong) (auto dest: set_takeWhileD simp: eqL)
    have pcT: "?P c" using True by (simp add: passes_def)
    have nlive: "\<not> live s skipItm c" using True by (simp add: live_def)
    have fr': "\<forall>n. n \<notin> set (l # takeWhile ?P (c # cs)) \<longrightarrow> store s' n = store s n"
      using fr pcT unfolding tw by (auto simp: store_setNext_other)
    from r same fr' show ?thesis
      unfolding f step tw dw fl using pcT nlive
      by (auto intro: same_items_trans[OF same_items_setNext])
  next
    case um: False
    have m1: "\<not> marked0 s c" using um .
    have d1: "distinct (c # cs @ [tail s])" using dist .
    show ?thesis
    proof (cases "skipped s skipItm c")
      case True
      have step: "findPath2_walk (Suc f) s x compare skipItm l pd =
           findPath2_walk f s x compare skipItm c pd"
        using hl nl hc um True by (rule findPath2_walk_skip)
      from Cons.IH[OF pc d1 m1 Cons.prems(4,5,6,7) len, of pd] obtain s' where
        r: "findPath2_walk f s x compare skipItm c pd =
            Some (Inr (if compare (Item s (hd (dropWhile ?P cs @ [tail s]))) x = 0
                       then Some (hd (dropWhile ?P cs @ [tail s])) else None,
                       last (pd # filter (live s skipItm) (takeWhile ?P cs)),
                       hd (dropWhile ?P cs @ [tail s]), s'))"
        and same: "same_items s s'"
        and fr: "\<forall>n. n \<notin> set (c # takeWhile ?P cs) \<longrightarrow> store s' n = store s n" by blast
      have pcT: "?P c" using True by (simp add: passes_def)
      have nlive: "\<not> live s skipItm c" using True by (simp add: live_def)
      from r same fr show ?thesis unfolding f step using pcT nlive by auto
    next
      case ns: False
      show ?thesis
      proof (cases "compare (Item s c) x < 0")
        case True
        have step: "findPath2_walk (Suc f) s x compare skipItm l pd =
           findPath2_walk f s x compare skipItm c c"
          using hl nl hc um ns True by (rule findPath2_walk_less)
        from Cons.IH[OF pc d1 m1 Cons.prems(4,5,6,7) len, of c] obtain s' where
          r: "findPath2_walk f s x compare skipItm c c =
            Some (Inr (if compare (Item s (hd (dropWhile ?P cs @ [tail s]))) x = 0
                       then Some (hd (dropWhile ?P cs @ [tail s])) else None,
                       last (c # filter (live s skipItm) (takeWhile ?P cs)),
                       hd (dropWhile ?P cs @ [tail s]), s'))"
          and same: "same_items s s'"
          and fr: "\<forall>n. n \<notin> set (c # takeWhile ?P cs) \<longrightarrow> store s' n = store s n" by blast
        have pcT: "?P c" using True by (simp add: passes_def)
        have lv: "live s skipItm c" using um ns by (simp add: live_def)
        from r same fr show ?thesis unfolding f step using pcT lv by auto
      next
        case False
        have stop: "findPath2_walk (Suc f) s x compare skipItm l pd =
           Some (Inr (if compare (Item s c) x = 0 then Some c else None, pd, c, s))"
          using hl nl hc um ns False by (rule findPath2_walk_stop)
        have npc: "\<not> ?P c" using um ns False by (simp add: passes_def)
        show ?thesis unfolding f stop using npc by simp
      qed
    qed
  qed
qed

lemma filter_takeWhile_passes:
  "filter (live s skip) (takeWhile (passes s compare x skip) ns)
     = takeWhile (\<lambda>n. compare (Item s n) x < 0) (filter (live s skip) ns)"
  by (induction ns) (auto simp: passes_def live_def)

lemma hd_dropWhile_passes:
  "hd (dropWhile (passes s compare x skip) ns @ [t])
     = hd (dropWhile (\<lambda>n. compare (Item s n) x < 0) (filter (live s skip) ns) @ [t])"
  by (induction ns) (auto simp: passes_def live_def)

lemma sl_SeekWithSkip_chain:
  assumes ch: "chain0 s ns" and tl: "\<not> skipped s skip (tail s)"
    "0 \<le> compare (Item s (tail s)) x" and fuel: "length ns < fuel"
  shows "\<exists>s'. sl_SeekWithSkip fuel i s compare x skip =
            Some (Inr (compare (Item s (hd (dropWhile (\<lambda>n. compare (Item s n) x < 0)
                                              (filter (live s skip) ns) @ [tail s]))) x = 0,
                       i\<lparr>valid := True,
                         prev := Some (last (head s # takeWhile (\<lambda>n. compare (Item s n) x < 0)
                                                        (filter (live s skip) ns))),
                         curr := Some (hd (dropWhile (\<lambda>n. compare (Item s n) x < 0)
                                              (filter (live s skip) ns) @ [tail s]))\<rparr>,
                       s')) \<and>
           same_items s s'"
proof -
  let ?P = "passes s compare x skip"
  let ?succ = "hd (dropWhile ?P ns @ [tail s])"
  from ch have path: "path0 s (head s) (ns @ [tail s])"
    and dist: "distinct (head s # ns @ [tail s])" and hm: "\<not> marked0 s (head s)"
    and ht: "has0 s (tail s)" and mt: "\<not> marked0 s (tail s)"
    by (simp_all add: chain0_def)
  from findPath2_walk_chain[where compare=compare, OF path dist hm ht mt tl fuel, of "head s"]
  obtain s' where
    w: "findPath2_walk fuel s x compare skip (head s) (head s) =
          Some (Inr (if compare (Item s ?succ) x = 0 then Some ?succ else None,
                     last (head s # filter (live s skip) (takeWhile ?P ns)), ?succ, s'))"
    and same: "same_items s s'"
    by blast
  have "sl_SeekWithSkip fuel i s compare x skip =
               Some (Inr (compare (Item s ?succ) x = 0,
                  i\<lparr>valid := True,
                    prev := Some (last (head s # filter (live s skip) (takeWhile ?P ns))),
                    curr := Some ?succ\<rparr>, s'))"
    using w by (simp add: sl_SeekWithSkip_def findPath2_def)
  with same show ?thesis
    unfolding filter_takeWhile_passes hd_dropWhile_passes by blast
qed

section \<open>Snapshot iterator: the claims\<close>

text \<open>
  What \<open>skipUnwanted\<close> does when the cursor stands in front of the chain nodes
  \<open>ns\<close>: it returns with the cursor on the first node of \<open>ns\<close> whose item satisfies
  the visibility predicate of the snapshot, or on the tail when there is none; its counter
  grows by the number of nodes it has passed, and the iterator is valid exactly when the
  cursor is on a node, which is then visible. \<open>SeekFirst\<close>, \<open>Seek\<close> and the first
  part of \<open>Next\<close> end with this call.
\<close>

lemma skipUnwanted_stops_on_first_visible:
  assumes pos: "at_pos s (iter it) ns" and items: "list_all (is_item s) ns"
    and fuel: "length ns < fuel"
  shows "\<exists>it' s'. skipUnwanted fuel it s iterCmp = Some (Inr (it', s')) \<and> same_items s s' \<and>
           at_pos s' (iter it') (dropWhile (\<lambda>n. \<not> node_visible s (snap_sn it) n) ns) \<and>
           count it' = count it +
             int (length (takeWhile (\<lambda>n. \<not> node_visible s (snap_sn it) n) ns)) \<and>
           (case dropWhile (\<lambda>n. \<not> node_visible s (snap_sn it) n) ns of
              [] \<Rightarrow> GetNode it' = Some (tail s) \<and> \<not> fst (sl_Valid (iter it') s')
            | v # vs \<Rightarrow> GetNode it' = Some v \<and> fst (sl_Valid (iter it') s') \<and>
                        node_visible s (snap_sn it) v)"
proof -
  let ?inv = "\<lambda>n. \<not> node_visible s (snap_sn it) n"
  from skipUnwanted_chain[OF pos items fuel, of iterCmp] obtain it' s' where
    r: "skipUnwanted fuel it s iterCmp = Some (Inr (it', s'))"
      "at_pos s' (iter it') (dropWhile ?inv ns)" "same_items s s'"
      "count it' = count it + int (length (takeWhile ?inv ns))"
    by blast
  have post: "case dropWhile ?inv ns of
              [] \<Rightarrow> GetNode it' = Some (tail s) \<and> \<not> fst (sl_Valid (iter it') s')
            | v # vs \<Rightarrow> GetNode it' = Some v \<and> fst (sl_Valid (iter it') s') \<and>
                        node_visible s (snap_sn it) v"
  proof (cases "dropWhile ?inv ns")
    case Nil
    from r(2)[unfolded Nil] r(3) show ?thesis unfolding Nil
      by (auto simp: at_pos_def GetNode_def sl_GetNode_def sl_Valid_def same_items_def)
  next
    case (Cons v vs)
    from hd_dropWhile[of ?inv ns] Cons have "node_visible s (snap_sn it) v" by auto
    moreover from r(2) Cons have "at_node s' (iter it') v vs" by (simp add: at_pos_def)
    then have "curr (iter it') = Some v" "valid (iter it')" "v \<noteq> tail s'"
      by (auto simp: at_node_def)
    ultimately show ?thesis unfolding Cons
      by (simp add: GetNode_def sl_GetNode_def sl_Valid_def)
  qed
  from r post show ?thesis by blast
qed

text \<open>
  C1 says that the snapshot iterator comes to rest only on items that its snapshot sees,
  after \<open>SeekFirst\<close>, \<open>Seek\<close> and \<open>Next\<close> alike. \<open>Next\<close> does not keep
  this when the automatic refresh is on: \<open>Refresh\<close> seeks the current item with the
  skiplist iterator's \<open>Seek\<close> and, unlike the iterator's own \<open>Seek\<close>, does not call
  \<open>skipUnwanted\<close> afterwards, so the cursor is left on the first node of that key,
  whatever its stamps. On the skiplist a, c (born 1, dead 2), c (born 2), e at the
  snapshot 3 with the refresh rate 1, \<open>Next\<close> from the node of a leaves the cursor on
  node 2, whose item died at 2; \<open>Valid\<close> is true there in both variants, and the loop
  reads a, the dead c and the live c. With the refresh off the same loop reads a and the
  live c.
\<close>

theorem Next_refresh_leaves_dead_item:
  "res_fst (Next 20 ((ex_it 1 3)\<lparr>iter := ex_at 0 1\<rparr>) ex_sl0 ex_iterCmp)
     = Some (Inr ((ex_it 1 3)\<lparr>iter := ex_at 1 2\<rparr>)) \<and>
   res_fst (Next_go 20 ((ex_it 1 3)\<lparr>iter := ex_at 0 1\<rparr>) ex_sl0 ex_iterCmp)
     = Some (Inr ((ex_it 1 3)\<lparr>iter := ex_at 1 2\<rparr>)) \<and>
   Item ex_sl0 2 = mkItem 1 2 ''c'' \<and> \<not> visible 3 \<lparr>bornSn = 1, deadSn = 2, bytes = ''c''\<rparr> \<and>
   Valid ((ex_it 1 3)\<lparr>iter := ex_at 1 2\<rparr>) ex_sl0 ex_iterCmp
     = Inr (True, (ex_it 1 3)\<lparr>iter := ex_at 1 2\<rparr>) \<and>
   Valid_go ((ex_it 1 3)\<lparr>iter := ex_at 1 2\<rparr>) ex_sl0 = (True, (ex_it 1 3)\<lparr>iter := ex_at 1 2\<rparr>) \<and>
   ex_loop (ex_it 1 3) ex_sl0 = Some [(Some 1, ''a''), (Some 2, ''c''), (Some 3, ''c'')] \<and>
   ex_loop_go (ex_it 1 3) ex_sl0 = Some [(Some 1, ''a''), (Some 2, ''c''), (Some 3, ''c'')] \<and>
   ex_loop (ex_it 0 3) ex_sl0 = Some [(Some 1, ''a''), (Some 3, ''c'')]"
  by code_simp

text \<open>
  C9. In the variant with an end item, \<open>Seek\<close> with a nil key is \<open>SeekFirst\<close>: for
  every iterator, skiplist and comparator the two calls give the same result. On a skiplist
  whose level-0 chain holds the item nodes \<open>ns\<close>, both return, from any iterator state,
  with the same iterator and skiplist, and the cursor is on the first node of the chain that
  the snapshot sees: \<open>GetNode\<close> is that node, \<open>Get\<close> its key, and \<open>Valid\<close> is
  true unless the node is at or beyond the end item; when the snapshot sees no node, the
  cursor is on the tail and \<open>Valid\<close> is false.
\<close>

theorem Seek_nil_is_SeekFirst:
  assumes ch: "chain0 s ns" and items: "list_all (is_item s) ns"
    and fuel: "Suc (length ns) < fuel"
  shows "Seek g j t c None = SeekFirst g j t c \<and>
         (\<exists>it' s'. Seek fuel it s iterCmp None = Some (Inr (it', s')) \<and>
            SeekFirst fuel it s iterCmp = Some (Inr (it', s')) \<and> same_items s s' \<and>
            (case dropWhile (\<lambda>n. \<not> node_visible s (snap_sn it) n) ns of
               [] \<Rightarrow> GetNode it' = Some (tail s) \<and>
                     (\<exists>it2. Valid it' s' iterCmp = Inr (False, it2))
             | v # vs \<Rightarrow> GetNode it' = Some v \<and> node_visible s (snap_sn it) v \<and>
                         Get it' s' = Inr (key_of s v) \<and>
                         (\<exists>it2. Valid it' s' iterCmp = Inr (below_end it s iterCmp v, it2))))"
proof
  show "Seek g j t c None = SeekFirst g j t c" by (simp add: Seek_def)
next
  let ?inv = "\<lambda>n. \<not> node_visible s (snap_sn it) n"
  from SeekFirst_any_cursor[OF ch items fuel, of it iterCmp] obtain it' s' where
    sf: "SeekFirst fuel it s iterCmp = Some (Inr (it', s'))" and same: "same_items s s'"
    and cur: "case dropWhile ?inv ns of
              [] \<Rightarrow> GetNode it' = Some (tail s) \<and>
                    (\<exists>it2. Valid it' s' iterCmp = Inr (False, it2))
            | v # vs \<Rightarrow> GetNode it' = Some v \<and> \<not> \<not> node_visible s (snap_sn it) v \<and>
                        (\<exists>it2. Valid it' s' iterCmp = Inr (below_end it s iterCmp v, it2))"
    by blast
  have sk: "Seek fuel it s iterCmp None = Some (Inr (it', s'))" using sf by (simp add: Seek_def)
  have "case dropWhile ?inv ns of
               [] \<Rightarrow> GetNode it' = Some (tail s) \<and>
                     (\<exists>it2. Valid it' s' iterCmp = Inr (False, it2))
             | v # vs \<Rightarrow> GetNode it' = Some v \<and> node_visible s (snap_sn it) v \<and>
                         Get it' s' = Inr (key_of s v) \<and>
                         (\<exists>it2. Valid it' s' iterCmp = Inr (below_end it s iterCmp v, it2))"
  proof (cases "dropWhile ?inv ns")
    case Nil
    from cur show ?thesis unfolding Nil by simp
  next
    case (Cons v vs)
    from cur[unfolded Cons] have g: "GetNode it' = Some v" and nv: "node_visible s (snap_sn it) v"
      and va: "\<exists>it2. Valid it' s' iterCmp = Inr (below_end it s iterCmp v, it2)" by simp_all
    from nv obtain x where x: "Item s v = ItemPtr x"
      by (auto simp: node_visible_def split: itemptr.splits)
    from same have "Item s' v = Item s v" by (simp add: same_items_def)
    with g x have "Get it' s' = Inr (key_of s v)"
      by (simp add: Get_def GetNode_def sl_GetNode_def sl_Get_def key_of_def)
    with g nv va show ?thesis unfolding Cons by simp
  qed
  with sk sf same
  show "\<exists>it' s'. Seek fuel it s iterCmp None = Some (Inr (it', s')) \<and>
            SeekFirst fuel it s iterCmp = Some (Inr (it', s')) \<and> same_items s s' \<and>
            (case dropWhile (\<lambda>n. \<not> node_visible s (snap_sn it) n) ns of
               [] \<Rightarrow> GetNode it' = Some (tail s) \<and>
                     (\<exists>it2. Valid it' s' iterCmp = Inr (False, it2))
             | v # vs \<Rightarrow> GetNode it' = Some v \<and> node_visible s (snap_sn it) v \<and>
                         Get it' s' = Inr (key_of s v) \<and>
                         (\<exists>it2. Valid it' s' iterCmp = Inr (below_end it s iterCmp v, it2)))"
    by blast
qed

theorem Seek_nil_is_SeekFirst_witness:
  "chain0 ex_sl0 [1, 2, 3, 4] \<and> list_all (is_item ex_sl0) [1, 2, 3, 4] \<and>
   (\<exists>it' s'. Seek 6 ((ex_it 0 2)\<lparr>iter := ex_at 3 4\<rparr>) ex_sl0 ex_iterCmp None = Some (Inr (it', s')) \<and>
      SeekFirst 6 ((ex_it 0 2)\<lparr>iter := ex_at 3 4\<rparr>) ex_sl0 ex_iterCmp = Some (Inr (it', s')) \<and>
      GetNode it' = Some 1 \<and> Get it' s' = Inr ''a'' \<and>
      (\<exists>it2. Valid it' s' ex_iterCmp = Inr (True, it2)))"
proof -
  let ?it = "(ex_it 0 2)\<lparr>iter := ex_at 3 4\<rparr>"
  have ch: "chain0 ex_sl0 [1, 2, 3, 4]" by code_simp
  have items: "list_all (is_item ex_sl0) [1, 2, 3, 4]" by code_simp
  have fuel: "Suc (length [1, 2, 3, 4 :: nat]) < 6" by simp
  have dw: "dropWhile (\<lambda>n. \<not> node_visible ex_sl0 (snap_sn ?it) n) [1, 2, 3, 4] = [1, 2, 3, 4]"
    by code_simp
  have k: "key_of ex_sl0 1 = ''a''" by code_simp
  have b: "below_end ?it ex_sl0 ex_iterCmp 1" by code_simp
  from Seek_nil_is_SeekFirst[OF ch items fuel, of 0 ?it ex_sl0 ex_iterCmp ?it ex_iterCmp]
  have "\<exists>it' s'. Seek 6 ?it ex_sl0 ex_iterCmp None = Some (Inr (it', s')) \<and>
      SeekFirst 6 ?it ex_sl0 ex_iterCmp = Some (Inr (it', s')) \<and>
      GetNode it' = Some 1 \<and> Get it' s' = Inr ''a'' \<and>
      (\<exists>it2. Valid it' s' ex_iterCmp = Inr (True, it2))"
    unfolding dw using b k by auto
  with ch items show ?thesis by blast
qed

section \<open>The loop with the automatic refresh on\<close>

text \<open>
  On the skiplist with three versions of the key c, at the snapshot 3 with the refresh rate
  1: \<open>Next\<close> from the node of a, and \<open>Next\<close> from node 2, both end on node 2 with
  the counter at zero and the skiplist unchanged, because \<open>Refresh\<close> seeks the key of
  the node that \<open>skipUnwanted\<close> has reached.
\<close>

lemma ex_sl2_simps:
  "head ex_sl2 = 0" "tail ex_sl2 = 6"
  "getNext ex_sl2 0 0 = Inr (Some 1, False)"
  "getNext ex_sl2 1 0 = Inr (Some 2, False)"
  "getNext ex_sl2 2 0 = Inr (Some 3, False)"
  "getNext ex_sl2 3 0 = Inr (Some 4, False)"
  "getNext ex_sl2 4 0 = Inr (Some 5, False)"
  "getNext ex_sl2 5 0 = Inr (Some 6, False)"
  "Item ex_sl2 1 = mkItem 1 0 ''a''"
  "Item ex_sl2 2 = mkItem 1 2 ''c''"
  "Item ex_sl2 3 = mkItem 2 3 ''c''"
  "Item ex_sl2 4 = mkItem 3 0 ''c''"
  "Item ex_sl2 5 = mkItem 1 0 ''e''"
  by (simp_all add: ex_sl2_def ex_store2_def getNext_def Item_def)

lemma cmp_items:
  "sentinelCompare ex_iterCmp (ItemPtr x) (ItemPtr y) = bytesCompare (bytes x) (bytes y)"
  by (simp add: sentinelCompare_def ex_iterCmp_def)

lemma bytes_simps: "bytesCompare ''a'' ''c'' = -1" "bytesCompare ''c'' ''c'' = 0"
  by code_simp+

lemma Next_back_fuel:
  "Next (Suc (Suc (Suc (Suc f)))) ex_back ex_sl2 ex_iterCmp = Some (Inr (ex_back, ex_sl2))"
  by (simp add: Next_def Next_skip_def sl_Next_def sl_Valid_def sl_Get_def ex_back_def ex_it_def
        ex_at_def ex_sl2_simps ex_sl2_simps[unfolded One_nat_def] mkItem_def Refresh_def Refresh_seek_def Valid_def GetNode_def
        sl_GetNode_def sl_Seek_def sl_SeekWithSkip_def findPath2_def NewIterator_def
        cmp_items bytes_simps visible_def)

lemma Next_back: "Next 20 ex_back ex_sl2 ex_iterCmp = Some (Inr (ex_back, ex_sl2))"
proof -
  have f: "(20::nat) = Suc (Suc (Suc (Suc 16)))" by simp
  show ?thesis unfolding f by (rule Next_back_fuel)
qed

lemma rounds_back:
  "iterate_n n 20 ex_back ex_sl2 ex_iterCmp
     = Some (Inr (replicate n (Some 2, ''c''), ex_back, ex_sl2))"
proof (induction n)
  case 0
  show ?case by simp
next
  case (Suc n)
  have v: "Valid ex_back ex_sl2 ex_iterCmp = Inr (True, ex_back)"
    by (simp add: Valid_def sl_Valid_def ex_back_def ex_it_def ex_at_def ex_sl2_simps)
  have g: "Get ex_back ex_sl2 = Inr ''c''"
    by (simp add: Get_def sl_Get_def ex_back_def ex_it_def ex_at_def ex_sl2_simps mkItem_def)
  have n: "GetNode ex_back = Some 2"
    by (simp add: GetNode_def sl_GetNode_def ex_back_def ex_it_def ex_at_def)
  show ?case by (simp add: v g n Next_back Suc.IH)
qed

lemma SeekFirst_ex2_fuel:
  "SeekFirst (Suc f) (ex_it 1 3) ex_sl2 ex_iterCmp
     = Some (Inr ((ex_it 1 3)\<lparr>iter := ex_at 0 1\<rparr>, ex_sl2))"
  by (simp add: SeekFirst_def sl_SeekFirst_def sl_Valid_def sl_Get_def ex_it_def ex_at_def
        ex_sl2_simps ex_sl2_simps[unfolded One_nat_def] mkItem_def NewIterator_def visible_def)

lemma SeekFirst_ex2:
  "SeekFirst 20 (ex_it 1 3) ex_sl2 ex_iterCmp = Some (Inr ((ex_it 1 3)\<lparr>iter := ex_at 0 1\<rparr>, ex_sl2))"
proof -
  have f: "(20::nat) = Suc 19" by simp
  show ?thesis unfolding f by (rule SeekFirst_ex2_fuel)
qed

lemma Next_first_fuel:
  "Next (Suc (Suc (Suc (Suc f)))) ((ex_it 1 3)\<lparr>iter := ex_at 0 1\<rparr>) ex_sl2 ex_iterCmp
     = Some (Inr (ex_back, ex_sl2))"
  by (simp add: Next_def Next_skip_def sl_Next_def sl_Valid_def sl_Get_def ex_back_def ex_it_def
        ex_at_def ex_sl2_simps ex_sl2_simps[unfolded One_nat_def] mkItem_def Refresh_def
        Refresh_seek_def Valid_def GetNode_def
        sl_GetNode_def sl_Seek_def sl_SeekWithSkip_def findPath2_def NewIterator_def
        cmp_items bytes_simps visible_def)

lemma Next_first:
  "Next 20 ((ex_it 1 3)\<lparr>iter := ex_at 0 1\<rparr>) ex_sl2 ex_iterCmp = Some (Inr (ex_back, ex_sl2))"
proof -
  have f: "(20::nat) = Suc (Suc (Suc (Suc 16)))" by simp
  show ?thesis unfolding f by (rule Next_first_fuel)
qed

text \<open>
  C8 says that the loop after \<open>SeekFirst\<close> reads the keys in order, each node of a key
  once and in level-0 order. With the automatic refresh on this fails: \<open>Refresh\<close> seeks
  the current item, which puts the cursor back on the first node of its key, so \<open>Next\<close>
  can move the cursor backwards. On the skiplist a, c (born 1, dead 2), c (born 2, dead 3),
  c (born 3), e at the snapshot 3 with the refresh rate 1, every \<open>Next\<close> ends on node
  2, which the snapshot does not see: for every \<open>n\<close> the first \<open>n + 1\<close> rounds of the
  loop read a and then \<open>n\<close> times node 2, so the loop never ends and never reaches the
  nodes 4 and 5, which the snapshot sees. With the refresh off the same loop reads a, the
  live c and e and ends.
\<close>

theorem iteration_refresh_never_ends:
  "ex_rounds (Suc n) (ex_it 1 3) ex_sl2 = Some ((Some 1, ''a'') # replicate n (Some 2, ''c'')) \<and>
   \<not> node_visible ex_sl2 3 2 \<and> node_visible ex_sl2 3 4 \<and> node_visible ex_sl2 3 5 \<and>
   ex_loop (ex_it 0 3) ex_sl2 = Some [(Some 1, ''a''), (Some 4, ''c''), (Some 5, ''e'')]"
proof -
  have v: "Valid ((ex_it 1 3)\<lparr>iter := ex_at 0 1\<rparr>) ex_sl2 ex_iterCmp
             = Inr (True, (ex_it 1 3)\<lparr>iter := ex_at 0 1\<rparr>)"
    by (simp add: Valid_def sl_Valid_def ex_it_def ex_at_def ex_sl2_simps)
  have g: "Get ((ex_it 1 3)\<lparr>iter := ex_at 0 1\<rparr>) ex_sl2 = Inr ''a''"
    by (simp add: Get_def sl_Get_def ex_it_def ex_at_def ex_sl2_simps[unfolded One_nat_def]
        mkItem_def)
  have n: "GetNode ((ex_it 1 3)\<lparr>iter := ex_at 0 1\<rparr>) = Some 1"
    by (simp add: GetNode_def sl_GetNode_def ex_it_def ex_at_def)
  have "ex_rounds (Suc n) (ex_it 1 3) ex_sl2
          = Some ((Some 1, ''a'') # replicate n (Some 2, ''c''))"
    by (simp add: ex_rounds_def SeekFirst_ex2 rounds_back v[unfolded One_nat_def]
        g[unfolded One_nat_def] n[unfolded One_nat_def] Next_first[unfolded One_nat_def])
  moreover have "\<not> node_visible ex_sl2 3 2 \<and> node_visible ex_sl2 3 4 \<and> node_visible ex_sl2 3 5 \<and>
     ex_loop (ex_it 0 3) ex_sl2 = Some [(Some 1, ''a''), (Some 4, ''c''), (Some 5, ''e'')]"
    by code_simp
  ultimately show ?thesis by blast
qed

text \<open>
  The same defect where one snapshot sees several nodes of a key: on the skiplist with the
  key a and three visible nodes of the key c, the loop with the refresh rate 1 reads the
  second node of c (node 3) and then the first one (node 2) again.
\<close>

lemma iteration_refresh_live_duplicates:
  "ex_rounds 5 (ex_it 1 1) ex_sl1
     = Some [(Some 1, ''a''), (Some 2, ''c''), (Some 2, ''c''), (Some 3, ''c''), (Some 2, ''c'')]"
  by code_simp

text \<open>
  What holds with the automatic refresh off (the default): \<open>SeekFirst\<close> followed by the
  loop returns, given enough fuel, and what the loop reads is the sequence of the visible
  nodes of the level-0 chain, in chain order, up to the end item when one is set. On a chain
  that is sorted by the comparator this sequence is non-decreasing, strictly increasing
  where the keys differ, and nodes with equal keys come in their level-0 order.
\<close>

lemma iteration_in_chain_order:
  assumes ch: "chain0 s ns" and items: "list_all (is_item s) ns"
    and fresh: "\<not> deleted (iter it)" and norefresh: "refreshRate it \<le> 0"
    and sorted: "sorted_wrt (\<lambda>a b. iterCmp (Item s a) (Item s b) \<le> 0) ns"
    and fuel: "length ns < fuel"
  shows "\<exists>it1 s1 it2 s2 nodes.
           nodes = takeWhile (below_end it s iterCmp) (filter (node_visible s (snap_sn it)) ns) \<and>
           SeekFirst fuel it s iterCmp = Some (Inr (it1, s1)) \<and>
           iterate fuel it1 s1 iterCmp
             = Some (Inr (map (\<lambda>n. (Some n, key_of s n)) nodes, it2, s2)) \<and>
           sorted_wrt (\<lambda>a b. iterCmp (Item s a) (Item s b) \<le> 0) nodes \<and>
           sorted_wrt (\<lambda>a b. iterCmp (Item s a) (Item s b) \<noteq> 0 \<longrightarrow>
                              iterCmp (Item s a) (Item s b) < 0) nodes"
proof -
  let ?nodes = "takeWhile (below_end it s iterCmp) (filter (node_visible s (snap_sn it)) ns)"
  from SeekFirst_iterate_chain[OF ch items fresh norefresh fuel, of iterCmp]
  obtain it1 s1 it2 s2 where
    sf: "SeekFirst fuel it s iterCmp = Some (Inr (it1, s1))"
    and run: "iterate fuel it1 s1 iterCmp
             = Some (Inr (map (\<lambda>n. (Some n, key_of s n)) ?nodes, it2, s2))" by blast
  have s1: "sorted_wrt (\<lambda>a b. iterCmp (Item s a) (Item s b) \<le> 0) ?nodes"
    using sorted by (rule sorted_wrt_takeWhile_filter)
  then have s2: "sorted_wrt (\<lambda>a b. iterCmp (Item s a) (Item s b) \<noteq> 0 \<longrightarrow>
                              iterCmp (Item s a) (Item s b) < 0) ?nodes"
    by (rule sorted_wrt_mono_rel[rotated]) auto
  from sf run s1 s2 show ?thesis by blast
qed


text \<open>
  C7, as stated for both variants, fails on the variant of iterator.go: it has no
  \<open>SetEnd\<close> and no end item, and its \<open>Valid\<close> is the skiplist iterator's alone. With
  the end key b in the iterator record, \<open>Valid\<close> of that variant is true on the node of
  the key c, and the iteration from \<open>SeekFirst\<close> reads a and c.
\<close>

theorem Valid_go_ignores_end_counterexample:
  "fst (Valid_go ((SetEnd (ex_it 0 3) (Some ''b''))\<lparr>iter := ex_at 2 3\<rparr>) ex_sl0) \<and>
   0 \<le> ex_iterCmp (Item ex_sl0 3) (newItem ''b'') \<and>
   (case SeekFirst 20 (SetEnd (ex_it 0 3) (Some ''b'')) ex_sl0 ex_iterCmp of
      Some (Inr (it1, s1)) \<Rightarrow>
        (case iterate_go 20 it1 s1 ex_iterCmp of Some (Inr (out, _, _)) \<Rightarrow> Some out | _ \<Rightarrow> None)
    | _ \<Rightarrow> None) = Some [(Some 1, ''a''), (Some 3, ''c'')]"
  by code_simp

lemma SetEnd_endItm: "k \<noteq> [] \<Longrightarrow> SetEnd it (Some k) = it\<lparr>endItm := Some (newItem k)\<rparr>"
  by (simp add: SetEnd_def)

text \<open>
  C7, amended to the variant with an end item. After \<open>SetEnd(k)\<close> with a non-empty key,
  \<open>Valid\<close> returns false whenever the current item compares at or above \<open>k\<close> under the
  iterator comparator; and the loop that follows a \<open>SeekFirst\<close> or a \<open>Seek\<close> reads
  only nodes whose items compare below \<open>k\<close>, whatever the refresh rate and the state of
  the skiplist.
\<close>

theorem SetEnd_bounds_iteration:
  assumes ne: "k \<noteq> []"
  shows "(sl_Get (iter it) s = Inr x \<and> 0 \<le> iterCmp x (newItem k) \<longrightarrow>
            (\<exists>it'. Valid (SetEnd it (Some k)) s iterCmp = Inr (False, it'))) \<and>
         ((SeekFirst f (SetEnd it (Some k)) s iterCmp = Some (Inr (it1, s1)) \<or>
           Seek f (SetEnd it (Some k)) s iterCmp bs = Some (Inr (it1, s1))) \<and>
          iterate g it1 s1 iterCmp = Some (Inr (out, it2, s2)) \<longrightarrow>
            list_all (emitted_below s iterCmp (newItem k)) out)"
proof (intro conjI impI)
  assume a: "sl_Get (iter it) s = Inr x \<and> 0 \<le> iterCmp x (newItem k)"
  obtain v i' where va: "sl_Valid (iter it) s = (v, i')" by (cases "sl_Valid (iter it) s")
  show "\<exists>it'. Valid (SetEnd it (Some k)) s iterCmp = Inr (False, it')"
  proof (cases v)
    case False
    with va show ?thesis by (simp add: SetEnd_endItm[OF ne] Valid_def)
  next
    case True
    with va have "i' = iter it" by (auto simp: sl_Valid_def split: if_splits)
    with va True a show ?thesis by (simp add: SetEnd_endItm[OF ne] Valid_def)
  qed
next
  assume a: "(SeekFirst f (SetEnd it (Some k)) s iterCmp = Some (Inr (it1, s1)) \<or>
           Seek f (SetEnd it (Some k)) s iterCmp bs = Some (Inr (it1, s1))) \<and>
          iterate g it1 s1 iterCmp = Some (Inr (out, it2, s2))"
  then have "same_items s s1 \<and> kept (SetEnd it (Some k)) it1"
    using SeekFirst_frame Seek_frame by blast
  then have same: "same_items s s1" and e: "endItm it1 = Some (newItem k)"
    by (simp_all add: kept_def SetEnd_endItm[OF ne])
  from a have "iterate g it1 s1 iterCmp = Some (Inr (out, it2, s2))" by simp
  from iterate_below_end[OF this e]
  show "list_all (emitted_below s iterCmp (newItem k)) out"
    unfolding emitted_below_same[OF same] .
qed

theorem SetEnd_bounds_iteration_witness:
  "''d'' \<noteq> [] \<and>
   sl_Get (iter ((ex_it 0 5)\<lparr>iter := ex_at 3 4\<rparr>)) ex_sl0 = Inr (mkItem 5 0 ''e'') \<and>
   0 \<le> ex_iterCmp (mkItem 5 0 ''e'') (newItem ''d'') \<and>
   (\<exists>it'. Valid (SetEnd ((ex_it 0 5)\<lparr>iter := ex_at 3 4\<rparr>) (Some ''d'')) ex_sl0 ex_iterCmp
            = Inr (False, it')) \<and>
   (\<exists>it1 s1 it2 s2.
      SeekFirst 5 (SetEnd ((ex_it 0 5)\<lparr>iter := ex_at 3 4\<rparr>) (Some ''d'')) ex_sl0 ex_iterCmp
        = Some (Inr (it1, s1)) \<and>
      iterate 5 it1 s1 ex_iterCmp = Some (Inr ([(Some 1, ''a''), (Some 3, ''c'')], it2, s2))) \<and>
   list_all (emitted_below ex_sl0 ex_iterCmp (newItem ''d'')) [(Some 1, ''a''), (Some 3, ''c'')]"
proof -
  let ?it = "(ex_it 0 5)\<lparr>iter := ex_at 3 4\<rparr>"
  let ?it' = "SetEnd ?it (Some ''d'')"
  have ne: "''d'' \<noteq> []" by simp
  have g: "sl_Get (iter ?it) ex_sl0 = Inr (mkItem 5 0 ''e'')" by code_simp
  have c: "0 \<le> ex_iterCmp (mkItem 5 0 ''e'') (newItem ''d'')" by code_simp
  have ch: "chain0 ex_sl0 [1, 2, 3, 4]" by code_simp
  have items: "list_all (is_item ex_sl0) [1, 2, 3, 4]" by code_simp
  have fresh: "\<not> deleted (iter ?it')" by code_simp
  have norefresh: "refreshRate ?it' \<le> 0" by code_simp
  have fuel: "length [1, 2, 3, 4 :: nat] < 5" by simp
  have nodes: "map (\<lambda>n. (Some n, key_of ex_sl0 n))
      (takeWhile (below_end ?it' ex_sl0 ex_iterCmp)
         (filter (node_visible ex_sl0 (snap_sn ?it')) [1, 2, 3, 4]))
      = [(Some 1, ''a''), (Some 3, ''c'')]" by code_simp
  from SeekFirst_iterate_chain[OF ch items fresh norefresh fuel, of ex_iterCmp]
  obtain it1 s1 it2 s2 where
    sf: "SeekFirst 5 ?it' ex_sl0 ex_iterCmp = Some (Inr (it1, s1))"
    and run: "iterate 5 it1 s1 ex_iterCmp = Some (Inr ([(Some 1, ''a''), (Some 3, ''c'')], it2, s2))"
    unfolding nodes by blast
  note inst = SetEnd_bounds_iteration[OF ne, of "?it" ex_sl0 "mkItem 5 0 ''e''" ex_iterCmp
      5 it1 s1 None 5 "[(Some 1, ''a''), (Some 3, ''c'')]" it2 s2]
  from inst g c have v: "\<exists>it'. Valid ?it' ex_sl0 ex_iterCmp = Inr (False, it')" by blast
  from inst sf run
  have l: "list_all (emitted_below ex_sl0 ex_iterCmp (newItem ''d'')) [(Some 1, ''a''), (Some 3, ''c'')]"
    by blast
  from ne g c v sf run l show ?thesis by blast
qed

lemma path0_softDelete [simp]: "path0 (softDelete s n) a ns = path0 s a ns"
  by (induction ns arbitrary: a) simp_all

text \<open>
  C10 says that after every \<open>Delete\<close> the cursor rests on the item that follows the
  deleted one. \<open>Delete\<close> relies on its call of \<open>Next\<close> to unlink the node and to
  move on, but \<open>Next\<close> returns at once when the deleted flag is set, and the flag of an
  earlier \<open>Delete\<close> is still set when \<open>Delete\<close> is called again before a
  \<open>Next\<close>. On the skiplist a, c, c, e with the cursor on node 2: the first
  \<open>Delete\<close> leaves the cursor on node 3; the second one marks node 3 and leaves the
  cursor on it, still linked, and the \<open>Next\<close> that follows is absorbed as well, so the
  cursor rests on the node just deleted and not on node 4.
\<close>

theorem Delete_twice_stays_on_deleted_node:
  "res_fst (sl_Delete 5 (ex_at 1 2) ex_sl0 (sentinelCompare ex_iterCmp))
     = Some (Inr \<lparr>prev = Some 1, curr = Some 3, valid = True, deleted = True\<rparr>) \<and>
   res_fst (case sl_Delete 5 (ex_at 1 2) ex_sl0 (sentinelCompare ex_iterCmp) of
              Some (Inr (i1, s1)) \<Rightarrow> sl_Delete 5 i1 s1 (sentinelCompare ex_iterCmp)
            | r \<Rightarrow> r)
     = Some (Inr \<lparr>prev = Some 1, curr = Some 3, valid = True, deleted = True\<rparr>) \<and>
   res_links [1, 3] (case sl_Delete 5 (ex_at 1 2) ex_sl0 (sentinelCompare ex_iterCmp) of
              Some (Inr (i1, s1)) \<Rightarrow> sl_Delete 5 i1 s1 (sentinelCompare ex_iterCmp)
            | r \<Rightarrow> r)
     = Some [[(Some 3, False)], [(Some 4, True)]] \<and>
   res_fst (case sl_Delete 5 (ex_at 1 2) ex_sl0 (sentinelCompare ex_iterCmp) of
              Some (Inr (i1, s1)) \<Rightarrow>
                (case sl_Delete 5 i1 s1 (sentinelCompare ex_iterCmp) of
                   Some (Inr (i2, s2)) \<Rightarrow> sl_Next 5 i2 s2 (sentinelCompare ex_iterCmp)
                 | r \<Rightarrow> r)
            | r \<Rightarrow> r)
     = Some (Inr \<lparr>prev = Some 1, curr = Some 3, valid = True, deleted = False\<rparr>)"
  by code_simp

text \<open>
  What holds when the deleted flag is clear: for a valid skiplist iterator whose \<open>prev\<close>
  is the unmarked level-0 predecessor of the cursor, \<open>Delete\<close> marks the node under the
  cursor, unlinks it, and leaves the cursor on the node that followed it, with the flag set;
  the \<open>Next\<close> right after it only clears the flag, so the cursor stays on that node and
  no node is skipped. For every iterator whose cursor is the tail, \<open>Valid\<close> returns
  false and \<open>Next\<close> leaves the cursor where it is.
\<close>

lemma Delete_then_Next_skips_nothing:
  assumes li: "linked_at s i p c rest"
  shows "(\<exists>i' s'. sl_Delete (Suc f) i s compare = Some (Inr (i', s')) \<and>
            curr i' = Some (hd (rest @ [tail s])) \<and> deleted i' \<and>
            marked0 s' c \<and> next0 s' p = Some (hd (rest @ [tail s])) \<and> same_items s s' \<and>
            sl_Next g i' s' compare = Some (Inr (i'\<lparr>deleted := False\<rparr>, s')) \<and>
            at_pos s' (i'\<lparr>deleted := False\<rparr>) rest) \<and>
         (curr j = Some (tail t) \<longrightarrow>
            \<not> fst (sl_Valid j t) \<and>
            (\<exists>j'. sl_Next g j t compare = Some (Inr (j', t)) \<and> curr j' = curr j))"
proof (intro conjI impI)
  let ?n = "hd (rest @ [tail s])"
  from li have pv: "prev i = Some p" and cur: "curr i = Some c" and v: "valid i"
    and nd: "\<not> deleted i" and hp: "has0 s p" and np: "next0 s p = Some c"
    and mp: "\<not> marked0 s p" and path: "path0 s c (rest @ [tail s])"
    and dist: "distinct (p # c # rest @ [tail s])"
    by (simp_all add: linked_at_def)
  from dist have pc: "p \<noteq> c" and ct: "c \<noteq> tail s" by auto
  from path have hc: "has0 s c" and nc: "next0 s c = Some ?n"
    and path': "path0 s ?n (tl (rest @ [tail s]))" by (cases rest; simp)+
  let ?s1 = "softDelete s c"
  let ?s' = "setNext ?s1 p 0 (Some ?n, False)"
  let ?i' = "i\<lparr>valid := True, curr := Some ?n, deleted := True\<rparr>"
  have valid_eq: "sl_Valid i ?s1 = (True, i)" using cur v ct by (simp add: sl_Valid_def)
  have hd1: "helpDelete ?s1 0 p c (Some ?n) = (True, ?s')"
    using hp np mp pc by (intro helpDelete_ok) simp_all
  have nx: "sl_Next (Suc f) i ?s1 compare = Some (Inr (i\<lparr>valid := True, curr := Some ?n\<rparr>, ?s'))"
    using nd valid_eq cur hc nc pv hd1 by (simp add: sl_Next_def getNext_0)
  have run: "sl_Delete (Suc f) i s compare = Some (Inr (?i', ?s'))"
    using cur nx by (simp add: sl_Delete_def)
  have mk: "marked0 ?s' c" using pc hc by simp
  have np': "next0 ?s' p = Some ?n" using hp by simp
  have same: "same_items s ?s'"
    by (rule same_items_trans[OF same_items_softDelete same_items_setNext])
  have absorbed: "sl_Next g ?i' ?s' compare = Some (Inr (?i'\<lparr>deleted := False\<rparr>, ?s'))"
    by (simp add: sl_Next_def)
  have pos: "at_pos ?s' (?i'\<lparr>deleted := False\<rparr>) rest"
  proof (cases rest)
    case Nil
    then show ?thesis by (simp add: at_pos_def)
  next
    case (Cons r rs)
    have pr: "p \<notin> set (r # rs)" using dist Cons by auto
    from path Cons have "path0 s r (rs @ [tail s])" by simp
    then have "path0 ?s1 r (rs @ [tail ?s1])" by simp
    then have p1: "path0 ?s' r (rs @ [tail s])"
      using pr by (intro path0_setNext') simp_all
    have "\<not> marked0 ?s' p" using hp by simp
    with Cons dist hp np' p1 pv show ?thesis
      by (auto simp: at_pos_def at_node_def)
  qed
  show "\<exists>i' s'. sl_Delete (Suc f) i s compare = Some (Inr (i', s')) \<and>
            curr i' = Some (hd (rest @ [tail s])) \<and> deleted i' \<and>
            marked0 s' c \<and> next0 s' p = Some (hd (rest @ [tail s])) \<and> same_items s s' \<and>
            sl_Next g i' s' compare = Some (Inr (i'\<lparr>deleted := False\<rparr>, s')) \<and>
            at_pos s' (i'\<lparr>deleted := False\<rparr>) rest"
    using run mk np' same absorbed pos
    by (intro exI[of _ ?i'] exI[of _ ?s']) simp
next
  assume "curr j = Some (tail t)"
  then show "\<not> fst (sl_Valid j t)" by (simp add: sl_Valid_def)
next
  assume "curr j = Some (tail t)"
  then show "\<exists>j'. sl_Next g j t compare = Some (Inr (j', t)) \<and> curr j' = curr j"
    by (cases "valid j") (auto simp: sl_Next_def sl_Valid_def)
qed

text \<open>
  C6, as stated for every key, fails when no node compares below the key: \<open>SeekPrev\<close>
  steps back to the predecessor only when that is not the head. On the skiplist a, c, c, e
  the search for the empty key finds nothing, the predecessor is the head, and the cursor
  stays on the node of a, which compares above the key.
\<close>

theorem SeekPrev_no_predecessor_counterexample:
  "res_fst (sl_SeekPrev 20 NewIterator ex_sl0 (sentinelCompare ex_iterCmp) (newItem '''') None)
     = Some (Inr (ex_on (Some 0) 1)) \<and>
   Item ex_sl0 1 = mkItem 1 0 ''a'' \<and>
   0 < sentinelCompare ex_iterCmp (mkItem 1 0 ''a'') (newItem '''')"
  by code_simp

text \<open>
  On a sorted chain the nodes in front of the stopping point of the search are all the live
  nodes that compare below the item, so the last of them is the largest one.
\<close>

lemma takeWhile_sorted_filter:
  assumes "sorted_wrt R xs" and "\<And>a b. R a b \<Longrightarrow> p b \<Longrightarrow> p a"
  shows "takeWhile p xs = filter p xs"
  using assms by (induction xs) (auto simp: filter_empty_conv empty_filter_conv)

lemma seek_below_sorted:
  assumes sorted: "sorted_wrt (\<lambda>a b. compare (Item s a) (Item s b) \<le> 0) ns"
    and mono: "\<And>a b. compare (Item s a) (Item s b) \<le> 0 \<Longrightarrow> compare (Item s b) x < 0 \<Longrightarrow>
                     compare (Item s a) x < 0"
  shows "seek_below s compare x skipItm ns
           = filter (\<lambda>n. live s skipItm n \<and> compare (Item s n) x < 0) ns"
proof -
  have "sorted_wrt (\<lambda>a b. compare (Item s a) (Item s b) \<le> 0) (filter (live s skipItm) ns)"
    using sorted by (rule sorted_wrt_filter)
  from takeWhile_sorted_filter[where p="\<lambda>n. compare (Item s n) x < 0", OF this] mono
  show ?thesis by (simp add: seek_below_def conj_commute)
qed

text \<open>
  C6, amended. On a skiplist whose level-0 chain holds the nodes \<open>ns\<close>, whose tail is
  not rejected by the skip function and does not compare below the item, \<open>SeekPrev\<close>
  returns, and among the live nodes (not marked, not rejected) in chain order the cursor
  is: on the first node that does not compare below the item, when that node compares equal
  to it (the exact node); otherwise on the last node in front of it (its predecessor),
  all of which compare below the item; except that, when no live node is in front of it
  (the predecessor is the head), the cursor stays on that first node, or on the tail.
\<close>

theorem SeekPrev_position:
  assumes ch: "chain0 s ns" and tl: "\<not> skipped s skipItm (tail s)"
    and above: "0 \<le> compare (Item s (tail s)) x" and fuel: "length ns < fuel"
  shows "\<exists>i' s'. sl_SeekPrev fuel i s compare x skipItm = Some (Inr (i', s')) \<and>
           same_items s s' \<and> valid i' \<and>
           curr i' = Some (if compare (Item s (seek_succ s compare x skipItm ns)) x = 0 \<or>
                              seek_below s compare x skipItm ns = []
                           then seek_succ s compare x skipItm ns
                           else last (seek_below s compare x skipItm ns))"
proof -
  let ?below = "seek_below s compare x skipItm ns"
  let ?succ = "seek_succ s compare x skipItm ns"
  let ?i1 = "i\<lparr>valid := True, prev := Some (last (head s # ?below)), curr := Some ?succ\<rparr>"
  from sl_SeekWithSkip_chain[where compare=compare, OF ch tl above fuel, of i] obtain s' where
    run: "sl_SeekWithSkip fuel i s compare x skipItm
            = Some (Inr (compare (Item s ?succ) x = 0, ?i1, s'))"
    and same: "same_items s s'"
    unfolding seek_below_def seek_succ_def by blast
  from same have hd: "head s' = head s" by (simp add: same_items_def)
  from ch have "head s \<notin> set ns" by (auto simp: chain0_def)
  moreover have "set ?below \<subseteq> set ns"
    unfolding seek_below_def by (auto dest: set_takeWhileD)
  ultimately have nh: "head s \<notin> set ?below" by blast
  have stepb: "last (head s # ?below) \<noteq> head s \<longleftrightarrow> ?below \<noteq> []"
  proof (cases "?below = []")
    case True
    then show ?thesis by simp
  next
    case False
    then have "last (head s # ?below) = last ?below" by simp
    moreover from False have "last ?below \<in> set ?below" by (rule last_in_set)
    ultimately show ?thesis using nh False by metis
  qed
  show ?thesis
  proof (cases "compare (Item s ?succ) x = 0 \<or> ?below = []")
    case True
    then have "sl_SeekPrev fuel i s compare x skipItm = Some (Inr (?i1, s'))"
      using run hd stepb by (auto simp: sl_SeekPrev_def)
    with same True show ?thesis by auto
  next
    case False
    then have "sl_SeekPrev fuel i s compare x skipItm
                 = Some (Inr (?i1\<lparr>curr := Some (last ?below), prev := None\<rparr>, s'))"
      using run hd stepb by (auto simp: sl_SeekPrev_def)
    with same False show ?thesis by auto
  qed
qed

theorem SeekPrev_position_witness:
  "chain0 ex_sl0 [1, 2, 3, 4] \<and> \<not> skipped ex_sl0 ex_skip (tail ex_sl0) \<and>
   0 \<le> sentinelCompare ex_iterCmp (Item ex_sl0 (tail ex_sl0)) (newItem ''d'') \<and>
   seek_below ex_sl0 (sentinelCompare ex_iterCmp) (newItem ''d'') ex_skip [1, 2, 3, 4] = [1, 2] \<and>
   seek_succ ex_sl0 (sentinelCompare ex_iterCmp) (newItem ''d'') ex_skip [1, 2, 3, 4] = 4 \<and>
   res_fst (sl_SeekPrev 5 NewIterator ex_sl0 (sentinelCompare ex_iterCmp) (newItem ''d'') ex_skip)
     = Some (Inr (ex_on None 2)) \<and>
   (\<exists>i' s'. sl_SeekPrev 5 NewIterator ex_sl0 (sentinelCompare ex_iterCmp) (newItem ''d'') ex_skip
              = Some (Inr (i', s')) \<and> same_items ex_sl0 s' \<and> curr i' = Some 2)"
proof -
  let ?cmp = "sentinelCompare ex_iterCmp"
  have ch: "chain0 ex_sl0 [1, 2, 3, 4]" by code_simp
  have tl: "\<not> skipped ex_sl0 ex_skip (tail ex_sl0)" by code_simp
  have above: "0 \<le> ?cmp (Item ex_sl0 (tail ex_sl0)) (newItem ''d'')" by code_simp
  have fuel: "length [1, 2, 3, 4 :: nat] < 5" by simp
  have below: "seek_below ex_sl0 ?cmp (newItem ''d'') ex_skip [1, 2, 3, 4] = [1, 2]" by code_simp
  have succ: "seek_succ ex_sl0 ?cmp (newItem ''d'') ex_skip [1, 2, 3, 4] = 4" by code_simp
  have ns: "\<not> ?cmp (Item ex_sl0 4) (newItem ''d'') = 0" by code_simp
  have run: "res_fst (sl_SeekPrev 5 NewIterator ex_sl0 ?cmp (newItem ''d'') ex_skip)
     = Some (Inr (ex_on None 2))" by code_simp
  from SeekPrev_position[where compare="?cmp", OF ch tl above fuel, of NewIterator]
  have "\<exists>i' s'. sl_SeekPrev 5 NewIterator ex_sl0 ?cmp (newItem ''d'') ex_skip
              = Some (Inr (i', s')) \<and> same_items ex_sl0 s' \<and> curr i' = Some 2"
    unfolding below succ using ns by auto
  with ch tl above below succ run show ?thesis by blast
qed

text \<open>
  C5 says that after \<open>Seek(k)\<close> a valid iterator is on the first visible item that does
  not compare below \<open>k\<close>. \<open>Seek\<close> of iterator.go calls the skiplist iterator's
  \<open>SeekPrev\<close>, which steps back to the predecessor when the key is absent, and without
  a block store nothing moves the cursor forward again. On the skiplist a, c (born 1, dead
  2), c (born 2), e (born 5) at the snapshot 6, \<open>Seek\<close> of the key d leaves that
  iterator valid on node 3, whose key c is below d. \<open>Seek\<close> of the variant with an end
  item calls the skiplist iterator's \<open>Seek\<close> in this case and ends on node 4, the
  visible item of the key e.
\<close>

theorem Seek_go_stops_before_key:
  "res_fst (Seek_go 20 (ex_it 0 6) ex_sl0 ex_iterCmp (Some ''d''))
     = Some (Inr ((ex_it 0 6)\<lparr>iter := ex_on None 3\<rparr>)) \<and>
   Item ex_sl0 3 = mkItem 2 0 ''c'' \<and> ex_iterCmp (mkItem 2 0 ''c'') (newItem ''d'') < 0 \<and>
   Valid_go ((ex_it 0 6)\<lparr>iter := ex_on None 3\<rparr>) ex_sl0
     = (True, (ex_it 0 6)\<lparr>iter := ex_on None 3\<rparr>) \<and>
   res_fst (Seek 20 (ex_it 0 6) ex_sl0 ex_iterCmp (Some ''d''))
     = Some (Inr ((ex_it 0 6)\<lparr>iter := ex_at 3 4\<rparr>)) \<and>
   Item ex_sl0 4 = mkItem 5 0 ''e'' \<and> visible 6 \<lparr>bornSn = 5, deadSn = 0, bytes = ''e''\<rparr>"
  by code_simp


end
